theory Spec2Isabelle
  imports Complex_Main "HOL-Library.Multiset"
begin

section \<open>Errors\<close>

text \<open>
  The failures a caller can observe.  \<open>ShapeMismatchError\<close> stands for the host framework
  and numpy rejecting an array whose shape differs from the shape declared for it in
  \<^verbatim>\<open>__init__\<close> / \<^verbatim>\<open>setup\<close>; \<open>IndexError\<close> is Python's error for reading row 0
  of an array that has no rows; \<open>AttributeError\<close> is Python's error for reading
  \<^verbatim>\<open>self.lu\<close> before any method has assigned it.  \<open>SingularSystemError\<close> and
  \<open>InvalidWeightError\<close> are the two error names of the specification; no statement of the
  source raises them, they are part of the type so that this can be stated.
\<close>

datatype error =
    ShapeMismatchError
  | IndexError
  | AttributeError
  | SingularSystemError
  | InvalidWeightError

section \<open>Transfer components (transfer.py)\<close>

subsection \<open>Points, 3 x 3 transforms and arrays of points\<close>

text \<open>
  The arrays of \<^verbatim>\<open>transfer.py\<close> have dtype complex and a last axis of length 3 (points)
  or 6 (a row of \<^verbatim>\<open>disp\<close>).  The last axis is a tuple, the two leading axes are lists:
  a mesh of shape \<open>(nx, ny, 3)\<close> is a list of \<open>nx\<close> chordwise rows, each a list of \<open>ny\<close>
  points.  Arithmetic is exact (complex numbers, not floating point).
\<close>

type_synonym vec3 = "complex \<times> complex \<times> complex"
type_synonym mat3 = "vec3 \<times> vec3 \<times> vec3"
type_synonym block2 = "(complex \<times> complex) \<times> (complex \<times> complex)"
type_synonym disp6 = "complex \<times> complex \<times> complex \<times> complex \<times> complex \<times> complex"
type_synonym mesh = "vec3 list list"

definition zero3 :: vec3 where
  "zero3 = (0, 0, 0)"

fun vadd3 :: "vec3 \<Rightarrow> vec3 \<Rightarrow> vec3" where
  "vadd3 (a0, a1, a2) (b0, b1, b2) = (a0 + b0, a1 + b1, a2 + b2)"

fun vsub3 :: "vec3 \<Rightarrow> vec3 \<Rightarrow> vec3" where
  "vsub3 (a0, a1, a2) (b0, b1, b2) = (a0 - b0, a1 - b1, a2 - b2)"

fun smul3 :: "complex \<Rightarrow> vec3 \<Rightarrow> vec3" where
  "smul3 c (a0, a1, a2) = (c * a0, c * a1, c * a2)"

text \<open>\<^verbatim>\<open>numpy.cross(r, F)\<close> for two vectors of length 3.\<close>

fun cross3 :: "vec3 \<Rightarrow> vec3 \<Rightarrow> vec3" where
  "cross3 (r0, r1, r2) (f0, f1, f2) =
     (r1 * f2 - r2 * f1, r2 * f0 - r0 * f2, r0 * f1 - r1 * f0)"

text \<open>\<^verbatim>\<open>p.dot(T)\<close>: a row vector times a 3 x 3 matrix given by its rows.\<close>

fun dot3 :: "vec3 \<Rightarrow> mat3 \<Rightarrow> vec3" where
  "dot3 (p0, p1, p2) ((t00, t01, t02), (t10, t11, t12), (t20, t21, t22)) =
     (p0 * t00 + p1 * t10 + p2 * t20,
      p0 * t01 + p1 * t11 + p2 * t21,
      p0 * t02 + p1 * t12 + p2 * t22)"

text \<open>Elementwise operations on arrays of points: one row, and a whole 2-d array.\<close>

definition row_add :: "vec3 list \<Rightarrow> vec3 list \<Rightarrow> vec3 list" where
  "row_add xs ys = map2 vadd3 xs ys"

definition row_sub :: "vec3 list \<Rightarrow> vec3 list \<Rightarrow> vec3 list" where
  "row_sub xs ys = map2 vsub3 xs ys"

definition row_scale :: "complex \<Rightarrow> vec3 list \<Rightarrow> vec3 list" where
  "row_scale c xs = map (smul3 c) xs"

definition arr_add :: "mesh \<Rightarrow> mesh \<Rightarrow> mesh" where
  "arr_add A B = map2 row_add A B"

definition arr_scale :: "complex \<Rightarrow> mesh \<Rightarrow> mesh" where
  "arr_scale c A = map (row_scale c) A"

text \<open>An array has shape \<open>(nx, ny, 3)\<close>.\<close>

definition has_shape :: "nat \<Rightarrow> nat \<Rightarrow> mesh \<Rightarrow> bool" where
  "has_shape nx ny A \<longleftrightarrow> length A = nx \<and> list_all (\<lambda>row. length row = ny) A"

subsection \<open>TransferDisplacements.solve_nonlinear\<close>

text \<open>
  \<^verbatim>\<open>T = -2 * numpy.eye(3)\<close> followed by the three in-place block additions
  \<^verbatim>\<open>T[1:, 1:] += ..\<close>, \<^verbatim>\<open>T[::2, ::2] += ..\<close>, \<^verbatim>\<open>T[:2, :2] += ..\<close>.
\<close>

definition scaled_eye3 :: "complex \<Rightarrow> mat3" where
  "scaled_eye3 c = ((c, 0, 0), (0, c, 0), (0, 0, c))"

fun add_block_12 :: "mat3 \<Rightarrow> block2 \<Rightarrow> mat3" where
  "add_block_12 ((t00, t01, t02), (t10, t11, t12), (t20, t21, t22)) ((a, b), (c, d)) =
     ((t00, t01, t02), (t10, t11 + a, t12 + b), (t20, t21 + c, t22 + d))"

fun add_block_02 :: "mat3 \<Rightarrow> block2 \<Rightarrow> mat3" where
  "add_block_02 ((t00, t01, t02), (t10, t11, t12), (t20, t21, t22)) ((a, b), (c, d)) =
     ((t00 + a, t01, t02 + b), (t10, t11, t12), (t20 + c, t21, t22 + d))"

fun add_block_01 :: "mat3 \<Rightarrow> block2 \<Rightarrow> mat3" where
  "add_block_01 ((t00, t01, t02), (t10, t11, t12), (t20, t21, t22)) ((a, b), (c, d)) =
     ((t00 + a, t01 + b, t02), (t10 + c, t11 + d, t12), (t20, t21, t22))"

definition transform_T :: "complex \<Rightarrow> complex \<Rightarrow> complex \<Rightarrow> mat3" where
  "transform_T rx ry rz =
     add_block_01
       (add_block_02
          (add_block_12 (scaled_eye3 (- 2)) ((cos rx, - sin rx), (sin rx, cos rx)))
          ((cos ry, sin ry), (- sin ry, cos ry)))
       ((cos rz, - sin rz), (sin rz, cos rz))"

text \<open>
  One pass of the loop over the spanwise index \<open>ind\<close>, seen at one chordwise point: the
  entry of \<^verbatim>\<open>def_mesh\<close> starts at zero, receives \<^verbatim>\<open>Smesh[:, ind, :].dot(T)\<close> and then
  \<open>dx\<close>, \<open>dy\<close>, \<open>dz\<close> in its three columns.
\<close>

fun deform_point :: "vec3 \<Rightarrow> disp6 \<Rightarrow> vec3" where
  "deform_point s (dx, dy, dz, rx, ry, rz) =
     vadd3 (vadd3 zero3 (dot3 s (transform_T rx ry rz))) (dx, dy, dz)"

text \<open>\<^verbatim>\<open>ref_curve = (1-w) * mesh[0, :, :] + w * mesh[-1, :, :]\<close>, with \<open>w\<close> a Python float.\<close>

definition ref_curve :: "real \<Rightarrow> mesh \<Rightarrow> vec3 list" where
  "ref_curve w mesh =
     row_add (row_scale (of_real (1 - w)) (hd mesh)) (row_scale (of_real w) (last mesh))"

definition Smesh_of :: "real \<Rightarrow> mesh \<Rightarrow> mesh" where
  "Smesh_of w mesh = map (\<lambda>row. row_sub row (ref_curve w mesh)) mesh"

text \<open>
  The loop over \<open>ind\<close> writes column \<open>ind\<close> of \<^verbatim>\<open>def_mesh\<close> from column \<open>ind\<close> of
  \<^verbatim>\<open>Smesh\<close> and row \<open>ind\<close> of \<^verbatim>\<open>disp\<close>; every chordwise row is therefore zipped with
  \<^verbatim>\<open>disp\<close>.
\<close>

definition def_mesh_of :: "mesh \<Rightarrow> disp6 list \<Rightarrow> mesh" where
  "def_mesh_of Smesh disp = map (\<lambda>row. map2 deform_point row disp) Smesh"

text \<open>
  The component of a surface with \<open>num_x = nx\<close>, \<open>num_y = ny\<close> and \<open>fem_origin = w\<close>.
  Its parameters are declared with shapes \<open>(nx, ny, 3)\<close> and \<open>(ny, 6)\<close>; with \<open>nx = 0\<close> the
  read of \<^verbatim>\<open>mesh[0, :, :]\<close> raises.  The body has no other failure and, in particular, no
  check of \<open>w\<close>.
\<close>

definition TransferDisplacements_solve_nonlinear ::
    "nat \<Rightarrow> nat \<Rightarrow> real \<Rightarrow> mesh \<Rightarrow> disp6 list \<Rightarrow> error + mesh" where
  "TransferDisplacements_solve_nonlinear nx ny w mesh disp =
     (if \<not> (has_shape nx ny mesh \<and> length disp = ny) then Inl ShapeMismatchError
      else if nx = 0 then Inl IndexError
      else Inr (arr_add (def_mesh_of (Smesh_of w mesh) disp) mesh))"

subsection \<open>TransferLoads.solve_nonlinear\<close>

text \<open>
  \<^verbatim>\<open>numpy.sum(sec_forces, axis=0)\<close> on an array of shape \<open>(nx-1, ny-1, 3)\<close>: the chordwise
  rows are added up, starting from the zero row of length \<open>ny-1\<close>.
\<close>

definition sum_axis0 :: "nat \<Rightarrow> mesh \<Rightarrow> vec3 list" where
  "sum_axis0 m A = foldl row_add (replicate m zero3) A"

text \<open>
  The four slices \<^verbatim>\<open>mesh[:-1, :-1]\<close>, \<^verbatim>\<open>mesh[1:, :-1]\<close>, \<^verbatim>\<open>mesh[:-1, 1:]\<close> and
  \<^verbatim>\<open>mesh[1:, 1:]\<close>, and the weighted sum of them that the source writes twice, once with
  \<open>w = 0.25\<close> (\<^verbatim>\<open>a_pts\<close>) and once with \<open>w = fem_origin\<close> (\<^verbatim>\<open>s_pts\<close>).
\<close>

definition interp_pts :: "real \<Rightarrow> mesh \<Rightarrow> mesh" where
  "interp_pts w mesh =
     arr_add
       (arr_add
          (arr_add
             (arr_scale (of_real (0.5 * (1 - w))) (map butlast (butlast mesh)))
             (arr_scale (of_real (0.5 * w)) (map butlast (tl mesh))))
          (arr_scale (of_real (0.5 * (1 - w))) (map tl (butlast mesh))))
       (arr_scale (of_real (0.5 * w)) (map tl (tl mesh)))"

text \<open>
  The loop over \<open>ind\<close>: \<^verbatim>\<open>moment[ind] = cross(a_pts[0, ind] - s_pts[0, ind], sec_forces[ind])\<close>.
  Only row 0 of \<^verbatim>\<open>a_pts\<close> and \<^verbatim>\<open>s_pts\<close> is read.
\<close>

definition moment_of :: "vec3 list \<Rightarrow> vec3 list \<Rightarrow> vec3 list \<Rightarrow> vec3 list" where
  "moment_of a0 s0 F = map2 cross3 (row_sub a0 s0) F"

text \<open>
  \<^verbatim>\<open>xs[:-1] += inc\<close> and \<^verbatim>\<open>xs[1:] += inc\<close> on an array with at least one row; \<open>inc\<close>
  has one row less than \<open>xs\<close>.
\<close>

definition add_init :: "vec3 list \<Rightarrow> vec3 list \<Rightarrow> vec3 list" where
  "add_init xs inc = row_add (butlast xs) inc @ [last xs]"

definition add_tail :: "vec3 list \<Rightarrow> vec3 list \<Rightarrow> vec3 list" where
  "add_tail xs inc = hd xs # row_add (tl xs) inc"

text \<open>
  One half of a \<open>(ny-1, 3)\<close> array goes to nodes \<open>0 .. ny-2\<close>, the other half to nodes
  \<open>1 .. ny-1\<close>, on top of zeros.
\<close>

definition spread_halves :: "nat \<Rightarrow> vec3 list \<Rightarrow> vec3 list" where
  "spread_halves ny v =
     add_tail (add_init (replicate ny zero3) (row_scale 0.5 v)) (row_scale 0.5 v)"

text \<open>
  The component of a surface with \<open>num_x = nx\<close>, \<open>num_y = ny\<close>, \<open>fem_origin = w\<close>.  Its
  parameters are declared with shapes \<open>(nx, ny, 3)\<close> and \<open>(nx-1, ny-1, 3)\<close>, which exist
  only for \<open>nx, ny \<ge> 1\<close>.
\<close>

definition loads_guard :: "nat \<Rightarrow> nat \<Rightarrow> mesh \<Rightarrow> mesh \<Rightarrow> bool" where
  "loads_guard nx ny mesh sec_forces \<longleftrightarrow>
     1 \<le> nx \<and> 1 \<le> ny \<and> has_shape nx ny mesh \<and> has_shape (nx - 1) (ny - 1) sec_forces"

text \<open>
  With \<open>nx = 1\<close> the arrays \<^verbatim>\<open>a_pts\<close> and \<^verbatim>\<open>s_pts\<close> have no row, and the loop
  (entered when \<open>ny \<ge> 2\<close>) raises on \<^verbatim>\<open>a_pts[0, ind, :]\<close>; with \<open>ny = 1\<close> the loop
  is not entered and \<^verbatim>\<open>moment\<close> stays empty.  The output \<^verbatim>\<open>loads\<close> of shape
  \<open>(ny, 6)\<close> is a list of pairs: columns \<open>0:3\<close> (force) and columns \<open>3:6\<close> (moment).
  The body has no check of \<open>w\<close>.
\<close>

definition TransferLoads_solve_nonlinear ::
    "nat \<Rightarrow> nat \<Rightarrow> real \<Rightarrow> mesh \<Rightarrow> mesh \<Rightarrow> error + (vec3 \<times> vec3) list" where
  "TransferLoads_solve_nonlinear nx ny w mesh sec_forces =
     (if \<not> loads_guard nx ny mesh sec_forces then Inl ShapeMismatchError
      else if nx = 1 \<and> 2 \<le> ny then Inl IndexError
      else
        let F = sum_axis0 (ny - 1) sec_forces;
            a_pts = interp_pts 0.25 mesh;
            s_pts = interp_pts w mesh;
            moment = (if ny = 1 then [] else moment_of (hd a_pts) (hd s_pts) F)
        in Inr (zip (spread_halves ny F) (spread_halves ny moment)))"

text \<open>Sum of a list of vectors.\<close>

definition vsum3 :: "vec3 list \<Rightarrow> vec3" where
  "vsum3 xs = foldr vadd3 xs zero3"

subsection \<open>Example inputs\<close>

text \<open>
  A flat mesh in the XY plane with \<open>nx = 2\<close>, \<open>ny = 3\<close>; the unit sectional force
  \<open>(0, 0, 1)\<close> on its two panels; and two meshes with \<open>nx = 3\<close> that differ in their
  third chordwise row only, with a force field for their four panels.
\<close>

definition example_mesh :: mesh where
  "example_mesh = [[(0, 0, 0), (0, 1, 0), (0, 2, 0)], [(1, 0, 0), (1, 1, 0), (1, 2, 0)]]"

definition unit_forces :: mesh where
  "unit_forces = [[(0, 0, 1), (0, 0, 1)]]"

definition example_mesh3a :: mesh where
  "example_mesh3a = example_mesh @ [[(2, 0, 0), (2, 1, 0), (2, 2, 0)]]"

definition example_mesh3b :: mesh where
  "example_mesh3b = example_mesh @ [[(5, 0, 1), (5, 1, 1), (5, 2, 1)]]"

definition example_forces3 :: mesh where
  "example_forces3 = [[(0, 0, 1), (0, 0, 1)], [(0, 1, 0), (1, 0, 2)]]"

section \<open>Circulation solver (openaerostruct/aerodynamics/solve_matrix.py)\<close>

subsection \<open>Vectors and matrices\<close>

text \<open>
  The arrays of \<^verbatim>\<open>solve_matrix.py\<close> are real.  A vector is a list, a matrix is the list
  of its rows, and arithmetic is exact (real numbers, not floating point).
\<close>

type_synonym vec = "real list"
type_synonym mat = "real list list"

definition is_square :: "nat \<Rightarrow> mat \<Rightarrow> bool" where
  "is_square n M \<longleftrightarrow> length M = n \<and> list_all (\<lambda>row. length row = n) M"

definition dot :: "vec \<Rightarrow> vec \<Rightarrow> real" where
  "dot u v = sum_list (map2 (*) u v)"

text \<open>\<^verbatim>\<open>M.dot(x)\<close> for a matrix and a vector.\<close>

definition mat_vec :: "mat \<Rightarrow> vec \<Rightarrow> vec" where
  "mat_vec M x = map (\<lambda>row. dot row x) M"

definition vsub :: "vec \<Rightarrow> vec \<Rightarrow> vec" where
  "vsub u v = map2 (-) u v"

definition smult :: "real \<Rightarrow> vec \<Rightarrow> vec" where
  "smult c v = map ((*) c) v"

text \<open>Column \<open>j\<close> of a matrix, the transpose of a square matrix, the matrix product and
  the identity matrix; they are used to state the properties, not by the code.\<close>

definition col :: "nat \<Rightarrow> mat \<Rightarrow> vec" where
  "col j M = map (\<lambda>row. row ! j) M"

definition mtranspose :: "mat \<Rightarrow> mat" where
  "mtranspose M = map (\<lambda>j. col j M) [0..<length M]"

definition mat_mul :: "mat \<Rightarrow> mat \<Rightarrow> mat" where
  "mat_mul A B = map (\<lambda>row. map (\<lambda>j. dot row (col j B)) [0..<length B]) A"

definition identity :: "nat \<Rightarrow> mat" where
  "identity n = map (\<lambda>i. map (\<lambda>j. if i = j then 1 else 0) [0..<n]) [0..<n]"

text \<open>
  A square matrix is invertible when it has a two-sided inverse.  Such a matrix sends no
  vector but zero to zero (\<open>nonsingular\<close>).
\<close>

definition invertible :: "nat \<Rightarrow> mat \<Rightarrow> bool" where
  "invertible n M \<longleftrightarrow>
     (\<exists>N. is_square n N \<and> mat_mul N M = identity n \<and> mat_mul M N = identity n)"

definition nonsingular :: "nat \<Rightarrow> mat \<Rightarrow> bool" where
  "nonsingular n M \<longleftrightarrow>
     (\<forall>x. length x = n \<longrightarrow> mat_vec M x = replicate n 0 \<longrightarrow> x = replicate n 0)"

text \<open>
  The pivot indices of an \<open>n\<close> x \<open>n\<close> factorization, read from row \<open>k\<close> on: row \<open>k\<close>
  is exchanged with a row \<open>p\<close>, \<open>k \<le> p < n\<close>.
\<close>

fun valid_piv :: "nat \<Rightarrow> nat \<Rightarrow> nat list \<Rightarrow> bool" where
  "valid_piv k n [] \<longleftrightarrow> True"
| "valid_piv k n (p # ps) \<longleftrightarrow> k \<le> p \<and> p < n \<and> valid_piv (Suc k) n ps"

subsection \<open>The LU routines of the linear-algebra library\<close>

text \<open>
  Modelled from the spec: \<^verbatim>\<open>scipy.linalg.lu_factor\<close> and \<^verbatim>\<open>scipy.linalg.lu_solve\<close>,
  which \<^verbatim>\<open>solve_matrix.py\<close> imports and calls, are library routines and not under
  \<^verbatim>\<open>src/\<close>.  The specification describes them as an LU decomposition with partial
  pivoting, a solve with the factors, and a transposed-solve mode of the same factors.
  The definitions below are this algorithm in exact arithmetic, in the form in which the
  library (LAPACK \<^verbatim>\<open>getrf\<close> and \<^verbatim>\<open>getrs\<close>) carries it out: row interchanges, packed
  factors, pivot indices, triangular solves.  Rounding is not modelled.  A zero pivot is
  no failure: the source passes no tolerance and the library routine goes on (it only
  warns), so the definitions go on as well, and what they return after a zero pivot is
  not meant to be the library's value.
\<close>

text \<open>Index of the first entry of largest absolute value (\<^verbatim>\<open>idamax\<close>).\<close>

fun argmax_abs :: "vec \<Rightarrow> nat" where
  "argmax_abs [] = 0"
| "argmax_abs [x] = 0"
| "argmax_abs (x # xs) = (let k = argmax_abs xs in if \<bar>xs ! k\<bar> \<le> \<bar>x\<bar> then 0 else Suc k)"

definition swap :: "nat \<Rightarrow> nat \<Rightarrow> 'a list \<Rightarrow> 'a list" where
  "swap i j xs = xs[i := xs ! j, j := xs ! i]"

text \<open>
  The row interchanges recorded in \<open>piv\<close>, applied to a vector in order, starting at row
  \<open>k\<close> (\<^verbatim>\<open>laswp\<close>): entry \<open>k\<close> is exchanged with entry \<open>piv[k]\<close>, then \<open>k+1\<close> with
  \<open>piv[k+1]\<close>, and so on; and the same interchanges in reverse order.
\<close>

fun laswp :: "nat list \<Rightarrow> nat \<Rightarrow> 'a list \<Rightarrow> 'a list" where
  "laswp [] k b = b"
| "laswp (p # ps) k b = laswp ps (Suc k) (swap k p b)"

fun laswp_rev :: "nat list \<Rightarrow> nat \<Rightarrow> 'a list \<Rightarrow> 'a list" where
  "laswp_rev [] k b = b"
| "laswp_rev (p # ps) k b = swap k p (laswp_rev ps (Suc k) b)"

text \<open>
  \<^verbatim>\<open>lu_factor(a)\<close> returns \<open>(lu, piv)\<close>: \<open>lu\<close> holds \<open>U\<close> on and above the diagonal and
  the multipliers of the unit lower triangular \<open>L\<close> below it; row \<open>k\<close> was interchanged
  with row \<open>piv[k]\<close>.  One step: the pivot row \<open>p\<close> is the first row with the largest
  absolute value in column 0; it is exchanged with row 0; the rest of column 0 is divided
  by the pivot \<open>a\<close> (nothing is divided when the pivot is zero: the column is zero then, and
  the routine only warns); the remaining block is updated and factored in turn, and the
  later interchanges also move the multipliers already stored.
\<close>

definition multipliers :: "real \<Rightarrow> vec \<Rightarrow> vec" where
  "multipliers a c = (if a = 0 then c else map (\<lambda>x. x / a) c)"

definition schur_update :: "vec \<Rightarrow> vec \<Rightarrow> mat \<Rightarrow> mat" where
  "schur_update l r B = map2 (\<lambda>li bi. vsub bi (smult li r)) l B"

function lu_factor :: "mat \<Rightarrow> mat \<times> nat list" where
  "lu_factor [] = ([], [])"
| "lu_factor (row # rows) =
     (let p = argmax_abs (map hd (row # rows));
          A = swap 0 p (row # rows);
          a = hd (hd A);
          r = tl (hd A);
          l = multipliers a (map hd (tl A));
          (LU', piv') = lu_factor (schur_update l r (map tl (tl A)))
      in ((a # r) # map2 (#) (laswp piv' 0 l) LU', p # map Suc piv'))"
  by pat_completeness auto
termination
  by (relation "measure length")
     (auto simp: swap_def schur_update_def multipliers_def simp del: list_update.simps)

text \<open>
  The triangular solves on the packed factors: \<open>L y = b\<close> (unit diagonal, forward),
  \<open>U x = y\<close> (backward), and for the transposed system \<open>U\<^sup>T z = b\<close> (forward) and
  \<open>L\<^sup>T w = z\<close> (unit diagonal, backward).
\<close>

fun fwd_subst :: "mat \<Rightarrow> vec \<Rightarrow> vec" where
  "fwd_subst (row # rows) (b # bs) =
     b # fwd_subst (map tl rows) (vsub bs (smult b (map hd rows)))"
| "fwd_subst _ _ = []"

fun back_subst :: "mat \<Rightarrow> vec \<Rightarrow> vec" where
  "back_subst (row # rows) (y # ys) =
     (let xs = back_subst (map tl rows) ys in (y - dot (tl row) xs) / hd row # xs)"
| "back_subst _ _ = []"

fun fwd_subst_UT :: "mat \<Rightarrow> vec \<Rightarrow> vec" where
  "fwd_subst_UT (row # rows) (b # bs) =
     (let z = b / hd row in z # fwd_subst_UT (map tl rows) (vsub bs (smult z (tl row))))"
| "fwd_subst_UT _ _ = []"

fun back_subst_LT :: "mat \<Rightarrow> vec \<Rightarrow> vec" where
  "back_subst_LT (row # rows) (z # zs) =
     (let ws = back_subst_LT (map tl rows) zs in (z - dot (map hd rows) ws) # ws)"
| "back_subst_LT _ _ = []"

text \<open>
  \<^verbatim>\<open>lu_solve((lu, piv), b, trans)\<close>: \<open>trans = 0\<close> solves \<open>A x = b\<close>, any other value
  solves the transposed system \<open>A\<^sup>T x = b\<close> (for real matrices \<open>trans = 1\<close> and
  \<open>trans = 2\<close> agree).  No factorization takes place here.
\<close>

definition lu_solve :: "mat \<times> nat list \<Rightarrow> vec \<Rightarrow> nat \<Rightarrow> vec" where
  "lu_solve lu_and_piv b transposed =
     (case lu_and_piv of (LU, piv) \<Rightarrow>
        if transposed = 0 then back_subst LU (fwd_subst LU (laswp piv 0 b))
        else laswp_rev piv 0 (back_subst_LT LU (fwd_subst_UT LU b)))"

subsection \<open>SolveMatrix\<close>

text \<open>
  The component keeps \<^verbatim>\<open>system_size\<close> (set by \<^verbatim>\<open>setup\<close>) and the attribute
  \<^verbatim>\<open>lu\<close>, which does not exist until \<^verbatim>\<open>solve_nonlinear\<close> or \<^verbatim>\<open>linearize\<close> assigns
  it.  A surface is read through its \<^verbatim>\<open>num_x\<close> and \<^verbatim>\<open>num_y\<close>, both at least 1.
\<close>

record surface =
  num_x :: nat
  num_y :: nat

record SolveMatrix =
  system_size :: nat
  lu :: "(mat \<times> nat list) option"

text \<open>\<^verbatim>\<open>np.outer(a, b).flatten()\<close>.\<close>

definition outer_flat :: "'a::times list \<Rightarrow> 'a list \<Rightarrow> 'a list" where
  "outer_flat a b = concat (map (\<lambda>x. map (\<lambda>y. x * y) b) a)"

text \<open>
  A declared sub-Jacobian in coordinate form: row indices, column indices and, position
  by position, the values.
\<close>

record 'a coo =
  coo_rows :: "nat list"
  coo_cols :: "nat list"
  coo_vals :: "'a list"

definition setup_system_size :: "surface list \<Rightarrow> nat" where
  "setup_system_size surfaces =
     foldl (\<lambda>acc s. acc + (num_x s - 1) * (num_y s - 1)) 0 surfaces"

definition SolveMatrix_setup :: "surface list \<Rightarrow> SolveMatrix" where
  "SolveMatrix_setup surfaces = \<lparr>system_size = setup_system_size surfaces, lu = None\<rparr>"

text \<open>
  The three \<^verbatim>\<open>declare_partials\<close> calls of \<^verbatim>\<open>setup\<close>: the index patterns of the
  partials of the residual with respect to \<^verbatim>\<open>circulations\<close>, \<^verbatim>\<open>mtx\<close> (flattened) and
  \<^verbatim>\<open>rhs\<close>.  The last one also fixes the values (\<^verbatim>\<open>val=-1.\<close>).
\<close>

definition rows_circulations :: "nat \<Rightarrow> nat list" where
  "rows_circulations n = outer_flat [0..<n] (replicate n 1)"

definition cols_circulations :: "nat \<Rightarrow> nat list" where
  "cols_circulations n = outer_flat (replicate n 1) [0..<n]"

definition rows_mtx :: "nat \<Rightarrow> nat list" where
  "rows_mtx n = outer_flat [0..<n] (replicate n 1)"

definition cols_mtx :: "nat \<Rightarrow> nat list" where
  "cols_mtx n = [0..<n ^ 2]"

definition partials_rhs :: "nat \<Rightarrow> real coo" where
  "partials_rhs n = \<lparr>coo_rows = [0..<n], coo_cols = [0..<n], coo_vals = replicate n (- 1)\<rparr>"

text \<open>\<^verbatim>\<open>apply_nonlinear\<close>: the residual.\<close>

definition apply_nonlinear :: "mat \<Rightarrow> vec \<Rightarrow> vec \<Rightarrow> vec" where
  "apply_nonlinear mtx circulations rhs = vsub (mat_vec mtx circulations) rhs"

text \<open>
  \<^verbatim>\<open>solve_nonlinear\<close>: factor, store the factors, solve.  The inputs have the shapes
  declared in \<^verbatim>\<open>setup\<close>.  No statement raises, and a zero pivot is not looked for.
\<close>

definition SolveMatrix_solve_nonlinear ::
    "SolveMatrix \<Rightarrow> mat \<Rightarrow> vec \<Rightarrow> error + SolveMatrix \<times> vec" where
  "SolveMatrix_solve_nonlinear self mtx rhs =
     (if \<not> (is_square (system_size self) mtx \<and> length rhs = system_size self)
      then Inl ShapeMismatchError
      else let f = lu_factor mtx
           in Inr (self\<lparr>lu := Some f\<rparr>, lu_solve f rhs 0))"

text \<open>
  \<^verbatim>\<open>linearize\<close>: factor again, store the factors, and set the values of the partials
  with respect to \<^verbatim>\<open>circulations\<close> and \<^verbatim>\<open>mtx\<close>.
\<close>

definition linearize ::
    "SolveMatrix \<Rightarrow> mat \<Rightarrow> vec \<Rightarrow> error + SolveMatrix \<times> real coo \<times> real coo" where
  "linearize self mtx circulations =
     (if \<not> (is_square (system_size self) mtx \<and> length circulations = system_size self)
      then Inl ShapeMismatchError
      else Inr (self\<lparr>lu := Some (lu_factor mtx)\<rparr>,
                \<lparr>coo_rows = rows_circulations (system_size self),
                 coo_cols = cols_circulations (system_size self),
                 coo_vals = concat mtx\<rparr>,
                \<lparr>coo_rows = rows_mtx (system_size self),
                 coo_cols = cols_mtx (system_size self),
                 coo_vals = outer_flat (replicate (system_size self) 1) circulations\<rparr>))"

text \<open>
  \<^verbatim>\<open>solve_linear\<close>: in mode \<^verbatim>\<open>'fwd'\<close> the seed is \<^verbatim>\<open>d_residuals\<close> and the result is
  written to \<^verbatim>\<open>d_outputs\<close>; in any other mode the seed is \<^verbatim>\<open>d_outputs\<close> and the result
  is written to \<^verbatim>\<open>d_residuals\<close>.  Both read the stored factors; the pair returned is
  \<open>(d_outputs, d_residuals)\<close> after the call.
\<close>

definition solve_linear ::
    "SolveMatrix \<Rightarrow> vec \<Rightarrow> vec \<Rightarrow> string \<Rightarrow> error + vec \<times> vec" where
  "solve_linear self d_outputs d_residuals mode =
     (case lu self of
        None \<Rightarrow> Inl AttributeError
      | Some f \<Rightarrow>
          if mode = ''fwd''
          then (if length d_residuals \<noteq> length (fst f) then Inl ShapeMismatchError
                else Inr (lu_solve f d_residuals 0, d_residuals))
          else (if length d_outputs \<noteq> length (fst f) then Inl ShapeMismatchError
                else Inr (d_outputs, lu_solve f d_outputs 1)))"

text \<open>
  Entry \<open>(i, j)\<close> of the dense Jacobian block that a coordinate-form sub-Jacobian stands
  for: the sum of the values stored at positions with row \<open>i\<close> and column \<open>j\<close>.
\<close>

definition coo_entry :: "real coo \<Rightarrow> nat \<Rightarrow> nat \<Rightarrow> real" where
  "coo_entry J i j =
     sum_list (map (\<lambda>p. if coo_rows J ! p = i \<and> coo_cols J ! p = j then coo_vals J ! p else 0)
                   [0..<length (coo_vals J)])"

subsection \<open>Example inputs for the solver\<close>

definition example_mtx :: mat where
  "example_mtx = [[1, 2], [3, 4]]"

definition example_inverse :: mat where
  "example_inverse = [[- 2, 1], [3 / 2, - (1 / 2)]]"

definition example_solver :: SolveMatrix where
  "example_solver = SolveMatrix_setup [\<lparr>num_x = 2, num_y = 3\<rparr>]"

text \<open>A matrix with a zero row.\<close>

definition singular_mtx :: mat where
  "singular_mtx = [[1, 2], [0, 0]]"

section \<open>Verification of the transfer components\<close>

subsection \<open>Shapes and elementwise operations\<close>

lemma has_shape_row: "has_shape nx ny A \<Longrightarrow> row \<in> set A \<Longrightarrow> length row = ny"
  by (simp add: has_shape_def list_all_iff)

lemma map2_map_same: "map2 g (map f xs) xs = map (\<lambda>x. g (f x) x) xs"
  by (induction xs) simp_all

lemma map2_vadd3_replicate:
  "length row = ny \<Longrightarrow> map2 vadd3 (replicate ny t) row = map (vadd3 t) row"
proof (induction row arbitrary: ny)
  case Nil
  then show ?case by simp
next
  case (Cons p row)
  then obtain m where "ny = Suc m" and "length row = m" by auto
  with Cons.IH [of m] show ?case by simp
qed

lemma vadd3_comm: "vadd3 p q = vadd3 q p"
  by (cases p, cases q) simp

lemma vadd3_assoc: "vadd3 (vadd3 p q) r = vadd3 p (vadd3 q r)"
  by (cases p, cases q, cases r) simp

lemma vadd3_interchange:
  "vadd3 (vadd3 a b) (vadd3 c d) = vadd3 (vadd3 a c) (vadd3 b d)"
  by (cases a, cases b, cases c, cases d) simp

lemma vadd3_zero_left: "vadd3 (0, 0, 0) p = p"
  by (cases p) simp

lemma vadd3_zero3_left: "vadd3 zero3 p = p"
  by (simp add: zero3_def vadd3_zero_left)

lemma vadd3_zero3_right: "vadd3 p zero3 = p"
  by (cases p) (simp add: zero3_def)

lemma smul3_vadd3: "smul3 c (vadd3 p q) = vadd3 (smul3 c p) (smul3 c q)"
  by (cases p, cases q) (simp add: algebra_simps)

lemma two_halves: "vadd3 (smul3 (1 / 2) p) (smul3 (1 / 2) p) = p"
  by (cases p) simp

subsection \<open>Displacement transfer without rotation\<close>

lemma transform_T_zero: "transform_T 0 0 0 = (zero3, zero3, zero3)"
  by (simp add: transform_T_def scaled_eye3_def zero3_def)

lemma deform_point_no_rotation: "deform_point s (dx, dy, dz, 0, 0, 0) = (dx, dy, dz)"
  by (cases s) (simp add: transform_T_zero, simp add: zero3_def)

lemma map2_deform_replicate:
  "length srow = ny \<Longrightarrow>
   map2 deform_point srow (replicate ny (dx, dy, dz, 0, 0, 0)) = replicate ny (dx, dy, dz)"
proof (induction srow arbitrary: ny)
  case Nil
  then show ?case by simp
next
  case (Cons s srow)
  then obtain m where "ny = Suc m" and "length srow = m" by auto
  with Cons.IH [of m] show ?case
    by (simp add: deform_point_no_rotation del: deform_point.simps)
qed

lemma ref_curve_length:
  assumes "has_shape nx ny mesh" and "0 < nx"
  shows "length (ref_curve w mesh) = ny"
proof -
  from assms have ne: "mesh \<noteq> []" by (auto simp: has_shape_def)
  then have "hd mesh \<in> set mesh" and "last mesh \<in> set mesh" by simp_all
  with assms(1) have "length (hd mesh) = ny" and "length (last mesh) = ny"
    by (simp_all add: has_shape_row)
  then show ?thesis by (simp add: ref_curve_def row_add_def row_scale_def)
qed

text \<open>
  With the same translation and no rotation at every station, every row of the output is
  the row of the mesh with the translation added in front.
\<close>

lemma uniform_translation:
  assumes shape: "has_shape nx ny mesh" and nx: "0 < nx"
  shows "arr_add (def_mesh_of (Smesh_of w mesh) (replicate ny (dx, dy, dz, 0, 0, 0))) mesh
         = map (map (vadd3 (dx, dy, dz))) mesh"
proof -
  let ?d = "replicate ny (dx, dy, dz, 0, 0, 0)"
  let ?f = "\<lambda>row. map2 deform_point (row_sub row (ref_curve w mesh)) ?d"
  have row: "row_add (?f row) row = map (vadd3 (dx, dy, dz)) row" if "row \<in> set mesh" for row
  proof -
    from shape that have len: "length row = ny" by (rule has_shape_row)
    with ref_curve_length [OF shape nx, of w]
    have "length (row_sub row (ref_curve w mesh)) = ny" by (simp add: row_sub_def)
    then have "?f row = replicate ny (dx, dy, dz)" by (rule map2_deform_replicate)
    with len show ?thesis by (simp add: row_add_def map2_vadd3_replicate)
  qed
  have "arr_add (def_mesh_of (Smesh_of w mesh) ?d) mesh = map (\<lambda>row. row_add (?f row) row) mesh"
    by (simp add: arr_add_def def_mesh_of_def Smesh_of_def map2_map_same o_def)
  also have "\<dots> = map (map (vadd3 (dx, dy, dz))) mesh"
    using row by (simp cong: map_cong)
  finally show ?thesis .
qed

lemmas displacement_eval_defs =
  TransferDisplacements_solve_nonlinear_def has_shape_def arr_add_def def_mesh_of_def
  Smesh_of_def ref_curve_def row_add_def row_sub_def row_scale_def transform_T_def
  scaled_eye3_def zero3_def example_mesh_def

text \<open>
  C6: with an all-zero displacement field the deformed mesh is the input mesh.  This holds
  for every mesh of the declared shape with at least one chordwise row and for every value
  of \<open>fem_origin\<close>, in particular for every value in \<open>[0, 1]\<close>.
\<close>

theorem zero_displacement_identity:
  assumes "has_shape nx ny mesh" and "0 < nx"
  shows "TransferDisplacements_solve_nonlinear nx ny w mesh (replicate ny (0, 0, 0, 0, 0, 0))
         = Inr mesh"
proof -
  have "map (map (vadd3 (0, 0, 0))) mesh = mesh"
    by (simp add: vadd3_zero_left map_idI)
  with assms uniform_translation [OF assms, of w 0 0 0] show ?thesis
    by (simp add: TransferDisplacements_solve_nonlinear_def)
qed

theorem zero_displacement_identity_witness:
  "has_shape 2 3 example_mesh \<and> (0::nat) < 2 \<and>
   TransferDisplacements_solve_nonlinear 2 3 (1 / 4) example_mesh
     (replicate 3 (0, 0, 0, 0, 0, 0)) = Inr example_mesh"
  using zero_displacement_identity [of 2 3 example_mesh "1 / 4"]
  by (simp add: has_shape_def example_mesh_def)

text \<open>
  C7: with zero rotation angles and the same translation \<open>(dx, dy, dz)\<close> at every
  spanwise station, every point of the deformed mesh is the corresponding point of the
  input mesh plus \<open>(dx, dy, dz)\<close>.
\<close>

theorem uniform_translation_shift:
  assumes "has_shape nx ny mesh" and "0 < nx"
  shows "TransferDisplacements_solve_nonlinear nx ny w mesh (replicate ny (dx, dy, dz, 0, 0, 0))
         = Inr (map (map (\<lambda>p. vadd3 p (dx, dy, dz))) mesh)"
proof -
  have "(\<lambda>p. vadd3 p (dx, dy, dz)) = vadd3 (dx, dy, dz)"
    by (rule ext) (rule vadd3_comm)
  with assms uniform_translation [OF assms, of w dx dy dz] show ?thesis
    by (simp add: TransferDisplacements_solve_nonlinear_def)
qed

theorem uniform_translation_shift_witness:
  "has_shape 2 3 example_mesh \<and> (0::nat) < 2 \<and>
   TransferDisplacements_solve_nonlinear 2 3 (1 / 4) example_mesh
     (replicate 3 (1, 2, 3, 0, 0, 0))
   = Inr [[(1, 2, 3), (1, 3, 3), (1, 4, 3)], [(2, 2, 3), (2, 3, 3), (2, 4, 3)]]"
  using uniform_translation_shift [of 2 3 example_mesh "1 / 4" 1 2 3]
  by (simp add: has_shape_def example_mesh_def)

subsection \<open>Load transfer\<close>

lemma vsum3_Nil: "vsum3 [] = zero3"
  by (simp add: vsum3_def)

lemma vsum3_Cons: "vsum3 (x # xs) = vadd3 x (vsum3 xs)"
  by (simp add: vsum3_def)

lemma vsum3_snoc_zero: "vsum3 (xs @ [zero3]) = vsum3 xs"
  by (induction xs) (simp_all add: vsum3_Cons vsum3_Nil vadd3_zero3_right)

lemma vsum3_row_add:
  "length xs = length ys \<Longrightarrow> vsum3 (row_add xs ys) = vadd3 (vsum3 xs) (vsum3 ys)"
proof (induction xs ys rule: list_induct2)
  case Nil
  then show ?case by (simp add: row_add_def vsum3_Nil vadd3_zero3_right)
next
  case (Cons x xs y ys)
  then show ?case
    by (simp add: row_add_def vsum3_Cons vadd3_interchange)
qed

lemma vsum3_row_scale: "vsum3 (row_scale c xs) = smul3 c (vsum3 xs)"
  by (induction xs) (simp_all add: row_scale_def vsum3_Cons vsum3_Nil smul3_vadd3 zero3_def)

lemma row_add_zeros: "length h = m \<Longrightarrow> row_add (replicate m zero3) h = h"
  by (simp add: row_add_def map2_vadd3_replicate vadd3_zero3_left map_idI)

lemma butlast_replicate_Suc: "butlast (replicate (Suc m) x) = replicate m x"
  by (induction m) simp_all

lemma last_replicate_Suc: "last (replicate (Suc m) x) = x"
  by (induction m) simp_all

lemma add_init_zeros:
  "length h = m \<Longrightarrow> add_init (replicate (Suc m) zero3) h = h @ [zero3]"
  unfolding add_init_def butlast_replicate_Suc last_replicate_Suc
  by (simp add: row_add_zeros)

lemma vsum3_add_tail:
  assumes "length xs = Suc (length inc)"
  shows "vsum3 (add_tail xs inc) = vadd3 (vsum3 xs) (vsum3 inc)"
proof -
  from assms obtain x xs' where xs: "xs = x # xs'" and len: "length xs' = length inc"
    by (cases xs) auto
  show ?thesis
    by (simp add: xs add_tail_def vsum3_Cons vsum3_row_add [OF len] vadd3_assoc)
qed

text \<open>The two halves of every entry are both counted: the sum is unchanged.\<close>

lemma vsum3_spread_halves:
  assumes "length v = m"
  shows "vsum3 (spread_halves (Suc m) v) = vsum3 v"
proof -
  let ?h = "row_scale 0.5 v"
  from assms have len: "length ?h = m" by (simp add: row_scale_def)
  have "vsum3 (spread_halves (Suc m) v) = vsum3 (add_tail (?h @ [zero3]) ?h)"
    unfolding spread_halves_def add_init_zeros [OF len] ..
  also have "\<dots> = vadd3 (vsum3 (?h @ [zero3])) (vsum3 ?h)"
    by (rule vsum3_add_tail) simp
  also have "\<dots> = vsum3 v"
    by (simp add: vsum3_snoc_zero vsum3_row_scale two_halves)
  finally show ?thesis .
qed

lemma length_spread_halves:
  "length v = m \<Longrightarrow> length (spread_halves (Suc m) v) = Suc m"
  by (simp add: spread_halves_def add_tail_def add_init_def row_add_def row_scale_def)

lemma length_foldl_row_add:
  "length acc = m \<Longrightarrow> list_all (\<lambda>row. length row = m) A \<Longrightarrow>
   length (foldl row_add acc A) = m"
  by (induction A arbitrary: acc) (simp_all add: row_add_def)

lemma length_sum_axis0: "has_shape k m A \<Longrightarrow> length (sum_axis0 m A) = m"
  by (simp add: sum_axis0_def has_shape_def length_foldl_row_add)

text \<open>Row 0 of the interpolated points reads rows 0 and 1 of the mesh, and nothing else.\<close>

lemma interp_pts_Cons2:
  "hd (interp_pts w (r0 # r1 # rest)) =
     row_add (row_add (row_add (row_scale (of_real (0.5 * (1 - w))) (butlast r0))
                               (row_scale (of_real (0.5 * w)) (butlast r1)))
                      (row_scale (of_real (0.5 * (1 - w))) (tl r0)))
             (row_scale (of_real (0.5 * w)) (tl r1))"
  by (simp add: interp_pts_def arr_add_def arr_scale_def)

lemma length_hd_interp_pts:
  assumes "has_shape nx (Suc m) mesh" and "2 \<le> nx"
  shows "length (hd (interp_pts w mesh)) = m"
proof -
  from assms obtain r0 r1 rest where mesh: "mesh = r0 # r1 # rest"
    by (cases mesh; cases "tl mesh") (auto simp: has_shape_def)
  with assms(1) have "length r0 = Suc m" and "length r1 = Suc m"
    by (simp_all add: has_shape_def)
  then show ?thesis
    unfolding mesh interp_pts_Cons2 by (simp add: row_add_def row_scale_def)
qed

lemma hd_interp_pts_take2:
  assumes "2 \<le> length mesh"
  shows "hd (interp_pts w mesh) = hd (interp_pts w (take 2 mesh))"
proof -
  from assms obtain r0 r1 rest where mesh: "mesh = r0 # r1 # rest"
    by (cases mesh; cases "tl mesh") auto
  have "take 2 mesh = r0 # r1 # []" by (simp add: mesh numeral_2_eq_2)
  then show ?thesis by (simp add: mesh interp_pts_Cons2)
qed

lemma length_moment_of:
  "length a0 = m \<Longrightarrow> length s0 = m \<Longrightarrow> length F = m \<Longrightarrow> length (moment_of a0 s0 F) = m"
  by (simp add: moment_of_def row_sub_def)

lemma TransferLoads_unfold:
  "TransferLoads_solve_nonlinear nx ny w mesh sec_forces =
     (if \<not> loads_guard nx ny mesh sec_forces then Inl ShapeMismatchError
      else if nx = 1 \<and> 2 \<le> ny then Inl IndexError
      else Inr (zip (spread_halves ny (sum_axis0 (ny - 1) sec_forces))
                    (spread_halves ny
                       (if ny = 1 then []
                        else moment_of (hd (interp_pts 0.25 mesh)) (hd (interp_pts w mesh))
                               (sum_axis0 (ny - 1) sec_forces)))))"
  unfolding TransferLoads_solve_nonlinear_def Let_def ..

text \<open>What a successful call returns, with the lengths of the two halves of the output.\<close>

lemma TransferLoads_Inr:
  assumes "TransferLoads_solve_nonlinear nx ny w mesh sec_forces = Inr loads"
  obtains m moment where "ny = Suc m"
    and "has_shape (nx - 1) m sec_forces"
    and "length moment = m"
    and "loads = zip (spread_halves ny (sum_axis0 m sec_forces)) (spread_halves ny moment)"
proof -
  let ?F = "sum_axis0 (ny - 1) sec_forces"
  let ?mo = "if ny = 1 then [] else
               moment_of (hd (interp_pts 0.25 mesh)) (hd (interp_pts w mesh)) ?F"
  from assms have guard: "loads_guard nx ny mesh sec_forces"
    and ne: "\<not> (nx = 1 \<and> 2 \<le> ny)"
    and loads: "loads = zip (spread_halves ny ?F) (spread_halves ny ?mo)"
    unfolding TransferLoads_unfold by (simp_all split: if_splits)
  from guard obtain m where ny: "ny = Suc m" by (cases ny) (auto simp: loads_guard_def)
  from guard ny have sec: "has_shape (nx - 1) m sec_forces" by (simp add: loads_guard_def)
  then have lenF: "length (sum_axis0 m sec_forces) = m" by (rule length_sum_axis0)
  have "length ?mo = m"
  proof (cases "ny = 1")
    case True
    with ny show ?thesis by simp
  next
    case False
    with ne guard ny have "2 \<le> nx" by (simp add: loads_guard_def)
    moreover from guard ny have "has_shape nx (Suc m) mesh" by (simp add: loads_guard_def)
    ultimately have "length (hd (interp_pts v mesh)) = m" for v
      by (simp add: length_hd_interp_pts)
    with lenF ny False show ?thesis
      by (simp add: length_moment_of)
  qed
  with loads ny sec that [of m ?mo] show ?thesis by simp
qed

lemmas loads_eval_defs =
  TransferLoads_unfold loads_guard_def has_shape_def sum_axis0_def interp_pts_def
  arr_add_def arr_scale_def row_add_def row_sub_def row_scale_def moment_of_def
  spread_halves_def add_init_def add_tail_def zero3_def vsum3_def
  example_mesh_def unit_forces_def example_mesh3a_def example_mesh3b_def
  example_forces3_def

text \<open>
  C5: whenever the load transfer returns, the sum over all spanwise nodes of the force part
  \<^verbatim>\<open>loads[j, 0:3]\<close> equals the sum over all spanwise panels of the chordwise-reduced
  sectional forces.
\<close>

theorem total_force_conserved:
  assumes "TransferLoads_solve_nonlinear nx ny w mesh sec_forces = Inr loads"
  shows "vsum3 (map fst loads) = vsum3 (sum_axis0 (ny - 1) sec_forces)"
proof -
  from assms obtain m moment where ny: "ny = Suc m"
    and sec: "has_shape (nx - 1) m sec_forces"
    and mo: "length moment = m"
    and loads: "loads = zip (spread_halves ny (sum_axis0 m sec_forces)) (spread_halves ny moment)"
    by (rule TransferLoads_Inr)
  let ?F = "sum_axis0 m sec_forces"
  from sec have lenF: "length ?F = m" by (rule length_sum_axis0)
  have "map fst loads = spread_halves (Suc m) ?F"
    by (simp add: loads ny length_spread_halves [OF lenF] length_spread_halves [OF mo])
  then show ?thesis
    by (simp add: ny vsum3_spread_halves [OF lenF])
qed

theorem total_force_conserved_witness:
  "TransferLoads_solve_nonlinear 3 3 (1 / 2) example_mesh3a example_forces3
     = Inr [((0, 1 / 2, 1 / 2), (0, 1 / 8, - (1 / 8))),
            ((1 / 2, 1 / 2, 2), (0, 1 / 2, - (1 / 8))),
            ((1 / 2, 0, 3 / 2), (0, 3 / 8, 0))]
   \<and> vsum3 (map fst [((0, 1 / 2, 1 / 2), (0, 1 / 8, - (1 / 8))),
            ((1 / 2, 1 / 2, 2), (0, 1 / 2, - (1 / 8))),
            ((1 / 2, 0, 3 / 2), (0, 3 / 8, 0))])
     = vsum3 (sum_axis0 (3 - 1) example_forces3)"
proof -
  have run: "TransferLoads_solve_nonlinear 3 3 (1 / 2) example_mesh3a example_forces3
     = Inr [((0, 1 / 2, 1 / 2), (0, 1 / 8, - (1 / 8))),
            ((1 / 2, 1 / 2, 2), (0, 1 / 2, - (1 / 8))),
            ((1 / 2, 0, 3 / 2), (0, 3 / 8, 0))]"
    by (simp add: loads_eval_defs numeral_3_eq_3)
  from total_force_conserved [OF run] run show ?thesis by simp
qed

text \<open>
  C10: two calls whose meshes have the declared shape and agree on chordwise rows 0 and 1,
  with the same sectional forces and the same \<open>fem_origin\<close>, return the same result; the
  rows of the deformed mesh beyond the first two have no effect.
\<close>

theorem loads_depend_on_first_two_rows:
  assumes "has_shape nx ny mesh1" and "has_shape nx ny mesh2"
    and "take 2 mesh1 = take 2 mesh2"
  shows "TransferLoads_solve_nonlinear nx ny w mesh1 sec_forces
       = TransferLoads_solve_nonlinear nx ny w mesh2 sec_forces"
proof (cases "loads_guard nx ny mesh1 sec_forces")
  case False
  moreover from False assms(1,2) have "\<not> loads_guard nx ny mesh2 sec_forces"
    by (simp add: loads_guard_def)
  ultimately show ?thesis
    by (simp only: TransferLoads_unfold simp_thms if_True)
next
  case g1: True
  with assms(1,2) have g2: "loads_guard nx ny mesh2 sec_forces"
    by (simp add: loads_guard_def)
  show ?thesis
  proof (cases "nx = 1")
    case nx: True
    show ?thesis
    proof (cases "2 \<le> ny")
      case True
      with nx g1 g2 show ?thesis
        by (simp only: TransferLoads_unfold simp_thms if_True if_False)
    next
      case False
      with g1 have "ny = 1" by (simp add: loads_guard_def)
      with nx g1 g2 show ?thesis
        by (simp only: TransferLoads_unfold simp_thms if_True if_False)
    qed
  next
    case False
    with g1 assms(1,2) have len: "2 \<le> length mesh1" "2 \<le> length mesh2"
      by (simp_all add: loads_guard_def has_shape_def)
    have rows: "hd (interp_pts v mesh1) = hd (interp_pts v mesh2)" for v
      using hd_interp_pts_take2 [OF len(1), of v] hd_interp_pts_take2 [OF len(2), of v]
      by (simp only: assms(3))
    from False g1 g2 show ?thesis
      by (simp only: TransferLoads_unfold rows simp_thms if_True if_False)
  qed
qed

theorem loads_depend_on_first_two_rows_witness:
  "has_shape 3 3 example_mesh3a \<and> has_shape 3 3 example_mesh3b
   \<and> take 2 example_mesh3a = take 2 example_mesh3b
   \<and> example_mesh3a \<noteq> example_mesh3b
   \<and> TransferLoads_solve_nonlinear 3 3 (1 / 2) example_mesh3a example_forces3
     = TransferLoads_solve_nonlinear 3 3 (1 / 2) example_mesh3b example_forces3"
  using loads_depend_on_first_two_rows
          [of 3 3 example_mesh3a example_mesh3b "1 / 2" example_forces3]
  by (simp add: has_shape_def example_mesh3a_def example_mesh3b_def example_mesh_def)

text \<open>
  C8, the part that fails: in the scenario \<open>nx = 2\<close>, \<open>ny = 3\<close>, flat mesh,
  \<open>fem_origin = 0.25\<close>, unit force \<open>(0, 0, 1)\<close> on both panels, every entry of the moment
  columns is zero.
\<close>

theorem scenario_moments_counterexample:
  "TransferLoads_solve_nonlinear 2 3 0.25 example_mesh unit_forces
     = Inr [((0, 0, 1 / 2), (0, 0, 0)), ((0, 0, 1), (0, 0, 0)), ((0, 0, 1 / 2), (0, 0, 0))]"
  by (simp add: loads_eval_defs numeral_3_eq_3)

lemma cross3_zero_left: "cross3 zero3 F = zero3"
  by (cases F) (simp add: zero3_def)

lemma vsub3_self: "vsub3 p p = zero3"
  by (cases p) (simp add: zero3_def)

text \<open>Equal reference points give a zero moment arm, hence zero moments.\<close>

lemma moment_of_same:
  "length a0 = length F \<Longrightarrow> moment_of a0 a0 F = replicate (length F) zero3"
proof (induction a0 F rule: list_induct2)
  case Nil
  then show ?case by (simp add: moment_of_def row_sub_def)
next
  case (Cons a a0 f F)
  then show ?case
    by (simp add: moment_of_def row_sub_def vsub3_self cross3_zero_left)
qed

lemma spread_halves_zero: "spread_halves 3 (replicate 2 zero3) = replicate 3 zero3"
  by (simp add: spread_halves_def add_tail_def add_init_def row_add_def row_scale_def
      zero3_def numeral_3_eq_3 numeral_2_eq_2)

text \<open>
  C8 as amended: for every mesh with \<open>nx = 2\<close>, \<open>ny = 3\<close> (flat or not) and
  \<open>fem_origin = 0.25\<close>, zero displacement returns the mesh, and the unit force \<open>(0, 0, 1)\<close>
  on both panels gives nodal forces that sum to \<open>(0, 0, 2)\<close> and moment columns that are
  zero at all three nodes: the aerodynamic centre (weight \<open>0.25\<close>) and the structural axis
  (weight \<open>fem_origin\<close>) are the same points.
\<close>

theorem scenario_2x3:
  assumes "has_shape 2 3 mesh"
  shows "TransferDisplacements_solve_nonlinear 2 3 0.25 mesh (replicate 3 (0, 0, 0, 0, 0, 0))
           = Inr mesh
       \<and> (\<exists>loads. TransferLoads_solve_nonlinear 2 3 0.25 mesh unit_forces = Inr loads
             \<and> vsum3 (map fst loads) = (0, 0, 2)
             \<and> map snd loads = replicate 3 zero3)"
proof
  have "map (map (vadd3 (0, 0, 0))) mesh = mesh"
    by (simp add: vadd3_zero_left map_idI)
  with assms uniform_translation [OF assms, of "0.25" 0 0 0]
  show "TransferDisplacements_solve_nonlinear 2 3 0.25 mesh (replicate 3 (0, 0, 0, 0, 0, 0))
          = Inr mesh"
    by (simp add: TransferDisplacements_solve_nonlinear_def)
next
  let ?F = "sum_axis0 (3 - 1) unit_forces"
  let ?a = "hd (interp_pts 0.25 mesh)"
  have F: "?F = [(0, 0, 1), (0, 0, 1)]"
    by (simp add: sum_axis0_def unit_forces_def row_add_def zero3_def numeral_2_eq_2)
  from assms have "length ?a = 2"
    using length_hd_interp_pts [of 2 "Suc 1" mesh "0.25"] by (simp add: numeral_3_eq_3)
  with F have "moment_of ?a ?a ?F = replicate 2 zero3"
    using moment_of_same [of ?a ?F] by (simp add: numeral_2_eq_2)
  moreover from assms have "loads_guard 2 3 mesh unit_forces"
    by (simp add: loads_guard_def has_shape_def unit_forces_def)
  ultimately have run: "TransferLoads_solve_nonlinear 2 3 0.25 mesh unit_forces
      = Inr (zip (spread_halves 3 ?F) (replicate 3 zero3))"
    by (simp add: TransferLoads_unfold spread_halves_zero)
  have forces: "spread_halves 3 ?F = [(0, 0, 1 / 2), (0, 0, 1), (0, 0, 1 / 2)]"
    unfolding F
    by (simp add: spread_halves_def add_tail_def add_init_def row_add_def row_scale_def
        zero3_def numeral_3_eq_3)
  show "\<exists>loads. TransferLoads_solve_nonlinear 2 3 0.25 mesh unit_forces = Inr loads
          \<and> vsum3 (map fst loads) = (0, 0, 2) \<and> map snd loads = replicate 3 zero3"
    unfolding run forces
    by (simp add: vsum3_def zero3_def numeral_3_eq_3)
qed

theorem scenario_2x3_witness:
  "has_shape 2 3 example_mesh
   \<and> TransferDisplacements_solve_nonlinear 2 3 0.25 example_mesh
        (replicate 3 (0, 0, 0, 0, 0, 0)) = Inr example_mesh
   \<and> (\<exists>loads. TransferLoads_solve_nonlinear 2 3 0.25 example_mesh unit_forces = Inr loads
         \<and> vsum3 (map fst loads) = (0, 0, 2)
         \<and> map snd loads = replicate 3 zero3)"
proof -
  have shape: "has_shape 2 3 example_mesh"
    by (simp add: has_shape_def example_mesh_def)
  from scenario_2x3 [OF shape] shape show ?thesis by simp
qed

text \<open>
  C9, as stated, fails: with \<open>fem_origin = 2\<close> both components return a result, computed
  with the same formulas.
\<close>

theorem fem_origin_outside_counterexample:
  "TransferDisplacements_solve_nonlinear 2 3 2 example_mesh (replicate 3 (0, 0, 0, 0, 0, 0))
     = Inr example_mesh
   \<and> TransferLoads_solve_nonlinear 2 3 2 example_mesh unit_forces
     = Inr [((0, 0, 1 / 2), (0, 7 / 8, 0)), ((0, 0, 1), (0, 7 / 4, 0)),
            ((0, 0, 1 / 2), (0, 7 / 8, 0))]"
  by (simp add: displacement_eval_defs loads_eval_defs numeral_3_eq_3)

text \<open>
  C9 as amended: no transfer operation checks \<open>fem_origin\<close>.  For every value of
  \<open>fem_origin\<close>, inside or outside \<open>[0, 1]\<close>, a call on arrays of the declared shapes
  (with \<open>nx \<ge> 1\<close> for the displacement transfer and \<open>nx \<ge> 2\<close> for the load transfer)
  returns a result of the declared output shape; \<open>InvalidWeightError\<close> is never raised.
\<close>

theorem fem_origin_unchecked:
  assumes "has_shape nx ny mesh" and "length disp = ny" and "1 \<le> nx"
    and "loads_guard nx' ny' mesh' sec_forces" and "2 \<le> nx'"
  shows "(\<exists>out. TransferDisplacements_solve_nonlinear nx ny w mesh disp = Inr out
                \<and> length out = nx)
       \<and> (\<exists>loads. TransferLoads_solve_nonlinear nx' ny' w mesh' sec_forces = Inr loads)"
  using assms
  by (simp add: TransferDisplacements_solve_nonlinear_def TransferLoads_unfold
      arr_add_def def_mesh_of_def Smesh_of_def has_shape_def)

theorem fem_origin_unchecked_witness:
  "has_shape 2 3 example_mesh \<and> length (replicate 3 (0, 0, 0, 0, 0, 0 :: complex)) = 3
   \<and> (1::nat) \<le> 2 \<and> loads_guard 2 3 example_mesh unit_forces \<and> (2::nat) \<le> 2
   \<and> (\<exists>out. TransferDisplacements_solve_nonlinear 2 3 2 example_mesh
                   (replicate 3 (0, 0, 0, 0, 0, 0)) = Inr out \<and> length out = 2)
   \<and> (\<exists>loads. TransferLoads_solve_nonlinear 2 3 2 example_mesh unit_forces = Inr loads)"
proof -
  have shape: "has_shape 2 3 example_mesh"
    by (simp add: has_shape_def example_mesh_def)
  have guard: "loads_guard 2 3 example_mesh unit_forces"
    by (simp add: loads_guard_def has_shape_def example_mesh_def unit_forces_def)
  have len: "length (replicate 3 (0, 0, 0, 0, 0, 0 :: complex)) = 3" by simp
  from fem_origin_unchecked [OF shape len _ guard, of 2] shape guard
  show ?thesis by simp
qed

section \<open>Verification of the circulation solver\<close>

subsection \<open>The Jacobian blocks\<close>

lemma nth_concat_uniform:
  "list_all (\<lambda>xs. length xs = n) xss \<Longrightarrow> i < length xss \<Longrightarrow> k < n \<Longrightarrow>
   concat xss ! (i * n + k) = xss ! i ! k"
proof (induction xss arbitrary: i)
  case Nil
  then show ?case by simp
next
  case (Cons xs xss)
  show ?case
  proof (cases i)
    case 0
    with Cons.prems show ?thesis by (simp add: nth_append)
  next
    case (Suc i')
    with Cons.prems Cons.IH [of i'] show ?thesis by (simp add: nth_append)
  qed
qed

lemma length_concat_uniform:
  "list_all (\<lambda>xs. length xs = n) xss \<Longrightarrow> length (concat xss) = length xss * n"
  by (induction xss) simp_all

lemma length_outer_flat: "length (outer_flat a b) = length a * length b"
  using length_concat_uniform [of "length b" "map (\<lambda>x. map (\<lambda>y. x * y) b) a"]
  by (simp add: outer_flat_def list_all_iff)

lemma nth_outer_flat:
  "i < length a \<Longrightarrow> k < length b \<Longrightarrow> outer_flat a b ! (i * length b + k) = a ! i * b ! k"
  unfolding outer_flat_def
  by (subst nth_concat_uniform) (simp_all add: list_all_iff)

lemma sum_list_single:
  "q < N \<Longrightarrow> sum_list (map (\<lambda>p. if p = q then f p else (0::real)) [0..<N]) = f q"
  by (simp add: interv_sum_list_conv_sum_set_nat)

lemma coo_entry_unique:
  assumes "q < length (coo_vals J)"
    and "\<And>p. p < length (coo_vals J) \<Longrightarrow>
           (coo_rows J ! p = i \<and> coo_cols J ! p = j) \<longleftrightarrow> p = q"
  shows "coo_entry J i j = coo_vals J ! q"
proof -
  have "map (\<lambda>p. if coo_rows J ! p = i \<and> coo_cols J ! p = j then coo_vals J ! p else 0)
            [0..<length (coo_vals J)]
      = map (\<lambda>p. if p = q then coo_vals J ! p else 0) [0..<length (coo_vals J)]"
    using assms(2) by (intro map_cong) auto
  then have "coo_entry J i j
      = sum_list (map (\<lambda>p. if p = q then coo_vals J ! p else 0) [0..<length (coo_vals J)])"
    unfolding coo_entry_def by (rule arg_cong)
  also have "\<dots> = coo_vals J ! q"
    using assms(1) by (rule sum_list_single)
  finally show ?thesis .
qed

lemma coo_entry_absent:
  assumes "\<And>p. p < length (coo_vals J) \<Longrightarrow> \<not> (coo_rows J ! p = i \<and> coo_cols J ! p = j)"
  shows "coo_entry J i j = 0"
proof -
  have "map (\<lambda>p. if coo_rows J ! p = i \<and> coo_cols J ! p = j then coo_vals J ! p else 0)
            [0..<length (coo_vals J)]
      = map (\<lambda>p. 0) [0..<length (coo_vals J)]"
    using assms by (intro map_cong) auto
  then have "coo_entry J i j = sum_list (map (\<lambda>p. 0) [0..<length (coo_vals J)])"
    unfolding coo_entry_def by (rule arg_cong)
  then show ?thesis by simp
qed

text \<open>The index patterns: position \<open>p\<close> of the row-major patterns is row \<open>p div n\<close>, column \<open>p mod n\<close>.\<close>

lemma nth_rows_pattern:
  assumes "p < n * n"
  shows "rows_circulations n ! p = p div n" and "rows_mtx n ! p = p div n"
  unfolding rows_circulations_def rows_mtx_def
proof -
  from assms have n: "0 < n" by (cases n) auto
  from assms n have d: "p div n < n" by (simp add: less_mult_imp_div_less)
  from n have m: "p mod n < n" by simp
  have "outer_flat [0..<n] (replicate n (1::nat)) ! (p div n * length (replicate n (1::nat)) + p mod n)
      = [0..<n] ! (p div n) * replicate n (1::nat) ! (p mod n)"
    by (rule nth_outer_flat) (use d m in simp_all)
  with d m show "outer_flat [0..<n] (replicate n 1) ! p = p div n"
    and "outer_flat [0..<n] (replicate n 1) ! p = p div n" by simp_all
qed

lemma nth_cols_pattern:
  assumes "p < n * n"
  shows "cols_circulations n ! p = p mod n"
proof -
  from assms have n: "0 < n" by (cases n) auto
  from assms n have d: "p div n < n" by (simp add: less_mult_imp_div_less)
  from n have m: "p mod n < n" by simp
  have "outer_flat (replicate n (1::nat)) [0..<n] ! (p div n * length [0..<n] + p mod n)
      = replicate n (1::nat) ! (p div n) * [0..<n] ! (p mod n)"
    by (rule nth_outer_flat) (use d m in simp_all)
  with d m show ?thesis by (simp add: cols_circulations_def)
qed

lemma nth_ones_outer:
  assumes "i < n" and "k < n" and "length g = n"
  shows "outer_flat (replicate n (1::real)) g ! (i * n + k) = g ! k"
  using nth_outer_flat [of i "replicate n (1::real)" k g] assms by simp

lemma position_unique:
  assumes "i < n" and "k < n" and "p < n * n"
  shows "(p div n = i \<and> p mod n = k) \<longleftrightarrow> p = i * n + (k::nat)"
  using assms by auto

lemma position_bound: "i < n \<Longrightarrow> k < n \<Longrightarrow> i * n + k < n * (n::nat)"
proof -
  assume "i < n" and "k < n"
  then have "i * n + k < i * n + n" by simp
  also have "\<dots> = Suc i * n" by simp
  also from \<open>i < n\<close> have "\<dots> \<le> n * n" by (simp add: Suc_leI mult_le_mono1 del: mult_Suc)
  finally show ?thesis .
qed

text \<open>
  C3: after \<^verbatim>\<open>linearize\<close> on a matrix and a solution vector of the declared shapes,
  the three Jacobian blocks, read as dense matrices, are: the partial of residual \<open>i\<close>
  with respect to circulation \<open>k\<close> is \<open>mtx[i, k]\<close>; with respect to \<open>rhs[k]\<close> it is
  \<open>-1\<close> for \<open>k = i\<close> and \<open>0\<close> otherwise; with respect to the matrix entry \<open>mtx[i', k]\<close>
  (flat index \<open>i' * n + k\<close>) it is \<open>circulations[k]\<close> for \<open>i' = i\<close> and \<open>0\<close> for every
  other row \<open>i'\<close>.
\<close>

theorem jacobian_blocks:
  assumes lin: "linearize self mtx circulations = Inr (self', J_circ, J_mtx)"
    and n: "n = system_size self" and i: "i < n" and k: "k < n" and i': "i' < n"
  shows "coo_entry J_circ i k = mtx ! i ! k
       \<and> coo_entry (partials_rhs n) i k = (if i = k then - 1 else 0)
       \<and> coo_entry J_mtx i (i' * n + k) = (if i' = i then circulations ! k else 0)"
proof -
  from lin n have sq: "is_square n mtx" and len: "length circulations = n"
    and Jc: "J_circ = \<lparr>coo_rows = rows_circulations n, coo_cols = cols_circulations n,
                      coo_vals = concat mtx\<rparr>"
    and Jm: "J_mtx = \<lparr>coo_rows = rows_mtx n, coo_cols = cols_mtx n,
                     coo_vals = outer_flat (replicate n 1) circulations\<rparr>"
    by (auto simp: linearize_def split: if_splits)
  from sq have rows: "list_all (\<lambda>row. length row = n) mtx" and nrows: "length mtx = n"
    by (simp_all add: is_square_def)
  have lenc: "length (concat mtx) = n * n"
    using length_concat_uniform [OF rows] nrows by simp
  have q: "i * n + k < n * n" using i k by (rule position_bound)
  have q': "i' * n + k < n * n" using i' k by (rule position_bound)
  have "coo_entry J_circ i k = coo_vals J_circ ! (i * n + k)"
  proof (rule coo_entry_unique)
    show "i * n + k < length (coo_vals J_circ)" using q by (simp add: Jc lenc)
  next
    fix p assume "p < length (coo_vals J_circ)"
    then have p: "p < n * n" by (simp add: Jc lenc)
    with i k show "(coo_rows J_circ ! p = i \<and> coo_cols J_circ ! p = k) \<longleftrightarrow> p = i * n + k"
      by (simp add: Jc nth_rows_pattern nth_cols_pattern position_unique)
  qed
  also have "\<dots> = mtx ! i ! k"
    using nth_concat_uniform [OF rows, of i k] i k nrows by (simp add: Jc)
  finally have first: "coo_entry J_circ i k = mtx ! i ! k" .
  have second: "coo_entry (partials_rhs n) i k = (if i = k then - 1 else 0)"
  proof (cases "i = k")
    case True
    have "coo_entry (partials_rhs n) i k = coo_vals (partials_rhs n) ! i"
      by (rule coo_entry_unique) (use i True in \<open>auto simp: partials_rhs_def\<close>)
    with i True show ?thesis by (simp add: partials_rhs_def)
  next
    case False
    have "coo_entry (partials_rhs n) i k = 0"
      by (rule coo_entry_absent) (use False in \<open>auto simp: partials_rhs_def\<close>)
    with False show ?thesis by simp
  qed
  have lenm: "length (coo_vals J_mtx) = n * n"
    by (simp add: Jm length_outer_flat len)
  have third: "coo_entry J_mtx i (i' * n + k) = (if i' = i then circulations ! k else 0)"
  proof (cases "i' = i")
    case True
    have "coo_entry J_mtx i (i' * n + k) = coo_vals J_mtx ! (i' * n + k)"
    proof (rule coo_entry_unique)
      show "i' * n + k < length (coo_vals J_mtx)" using q' by (simp add: lenm)
    next
      fix p assume "p < length (coo_vals J_mtx)"
      then have p: "p < n * n" by (simp add: lenm)
      with True k show "(coo_rows J_mtx ! p = i \<and> coo_cols J_mtx ! p = i' * n + k)
                          \<longleftrightarrow> p = i' * n + k"
        by (auto simp: Jm cols_mtx_def nth_rows_pattern power2_eq_square)
    qed
    also have "\<dots> = circulations ! k"
      using nth_ones_outer [OF i' k len] by (simp add: Jm)
    finally show ?thesis using True by simp
  next
    case False
    have "coo_entry J_mtx i (i' * n + k) = 0"
    proof (rule coo_entry_absent)
      fix p assume "p < length (coo_vals J_mtx)"
      then have p: "p < n * n" by (simp add: lenm)
      with False k show "\<not> (coo_rows J_mtx ! p = i \<and> coo_cols J_mtx ! p = i' * n + k)"
        by (auto simp: Jm cols_mtx_def nth_rows_pattern power2_eq_square)
    qed
    with False show ?thesis by simp
  qed
  from first second third show ?thesis by simp
qed

subsection \<open>Vectors and matrices as lists\<close>

lemma dot_Nil [simp]: "dot [] v = 0" "dot u [] = 0"
  by (simp_all add: dot_def)

lemma dot_Cons [simp]: "dot (a # u) (b # v) = a * b + dot u v"
  by (simp add: dot_def)

lemma mat_vec_Nil [simp]: "mat_vec [] x = []"
  by (simp add: mat_vec_def)

lemma mat_vec_Cons [simp]: "mat_vec (row # A) x = dot row x # mat_vec A x"
  by (simp add: mat_vec_def)

lemma length_mat_vec [simp]: "length (mat_vec A x) = length A"
  by (simp add: mat_vec_def)

lemma length_vsub [simp]: "length (vsub u v) = min (length u) (length v)"
  by (simp add: vsub_def)

lemma length_smult [simp]: "length (smult c v) = length v"
  by (simp add: smult_def)

lemma vsub_Cons [simp]: "vsub (a # u) (b # v) = (a - b) # vsub u v"
  by (simp add: vsub_def)

lemma vsub_Nil [simp]: "vsub [] v = []" "vsub u [] = []"
  by (simp_all add: vsub_def)

lemma smult_Cons [simp]: "smult c (a # v) = c * a # smult c v"
  by (simp add: smult_def)

lemma smult_Nil [simp]: "smult c [] = []"
  by (simp add: smult_def)

lemma dot_zeros [simp]: "dot v (replicate n 0) = 0"
proof (induction v arbitrary: n)
  case Nil
  show ?case by simp
next
  case (Cons a v)
  then show ?case by (cases n) simp_all
qed

lemma dot_smult: "dot (smult c v) x = c * dot v x"
proof (induction v arbitrary: x)
  case Nil
  show ?case by simp
next
  case (Cons a v)
  then show ?case by (cases x) (simp_all add: algebra_simps)
qed

lemma dot_vsub: "length u = length v \<Longrightarrow> dot (vsub u v) x = dot u x - dot v x"
proof (induction u v arbitrary: x rule: list_induct2)
  case Nil
  show ?case by simp
next
  case (Cons a u b v)
  then show ?case by (cases x) (simp_all add: algebra_simps)
qed

subsection \<open>Exchanging two entries\<close>

lemma length_swap [simp]: "length (swap i j xs) = length xs"
  by (simp add: swap_def)

lemma swap_same [simp]: "swap i i xs = xs"
  by (simp add: swap_def)

lemma swap_Suc_Cons [simp]: "swap (Suc i) (Suc j) (x # xs) = x # swap i j xs"
  by (simp add: swap_def)

lemma map_swap: "i < length xs \<Longrightarrow> j < length xs \<Longrightarrow> map f (swap i j xs) = swap i j (map f xs)"
  by (simp add: swap_def map_update)

lemma zip_swap:
  "i < length xs \<Longrightarrow> j < length xs \<Longrightarrow> length xs = length ys \<Longrightarrow>
   zip (swap i j xs) (swap i j ys) = swap i j (zip xs ys)"
  by (simp add: swap_def update_zip)

lemma swap_swap: "i < length xs \<Longrightarrow> j < length xs \<Longrightarrow> swap i j (swap i j xs) = xs"
  by (rule nth_equalityI) (auto simp: swap_def nth_list_update)

lemma mset_swap_list: "i < length xs \<Longrightarrow> j < length xs \<Longrightarrow> mset (swap i j xs) = mset xs"
  unfolding swap_def by (rule mset_swap)

lemma set_swap: "i < length xs \<Longrightarrow> j < length xs \<Longrightarrow> set (swap i j xs) = set xs"
  by (metis mset_swap_list set_mset_mset)

lemma sum_list_swap:
  fixes xs :: "real list"
  shows "i < length xs \<Longrightarrow> j < length xs \<Longrightarrow> sum_list (swap i j xs) = sum_list xs"
  by (metis mset_swap_list sum_mset_sum_list)

lemma dot_swap:
  assumes "i < length u" and "j < length u" and "length u = length v"
  shows "dot (swap i j u) (swap i j v) = dot u v"
proof -
  have "map2 (*) (swap i j u) (swap i j v) = swap i j (map2 (*) u v)"
    using assms by (simp add: zip_swap map_swap)
  with assms show ?thesis by (simp add: dot_def sum_list_swap)
qed

lemma dot_swap_left:
  assumes "i < length u" and "j < length u" and "length u = length v"
  shows "dot (swap i j u) v = dot u (swap i j v)"
  using dot_swap [of i u j "swap i j v"] assms by (simp add: swap_swap)

lemma swap_replicate: "i < n \<Longrightarrow> j < n \<Longrightarrow> swap i j (replicate n x) = replicate n x"
  by (rule nth_equalityI) (auto simp: swap_def nth_list_update)

lemma mat_vec_swap:
  "i < length A \<Longrightarrow> j < length A \<Longrightarrow> mat_vec (swap i j A) x = swap i j (mat_vec A x)"
  by (simp add: mat_vec_def map_swap)

lemma is_square_swap:
  "i < n \<Longrightarrow> j < n \<Longrightarrow> is_square n A \<Longrightarrow> is_square n (swap i j A)"
  by (simp add: is_square_def list_all_iff set_swap)

subsection \<open>The pivot search\<close>

lemma argmax_abs_less: "xs \<noteq> [] \<Longrightarrow> argmax_abs xs < length xs"
  by (induction xs rule: argmax_abs.induct) (auto simp: Let_def)

lemma argmax_abs_max: "i < length xs \<Longrightarrow> \<bar>xs ! i\<bar> \<le> \<bar>xs ! argmax_abs xs\<bar>"
proof (induction xs arbitrary: i rule: argmax_abs.induct)
  case 1
  then show ?case by simp
next
  case (2 x)
  then show ?case by simp
next
  case (3 x y ys)
  show ?case
  proof (cases i)
    case 0
    then show ?thesis by (auto simp: Let_def)
  next
    case (Suc i')
    with "3.prems" have "\<bar>(y # ys) ! i'\<bar> \<le> \<bar>(y # ys) ! argmax_abs (y # ys)\<bar>"
      by (intro "3.IH") simp_all
    with Suc show ?thesis by (auto simp: Let_def)
  qed
qed

subsection \<open>Row interchanges\<close>

lemma length_laswp [simp]: "length (laswp ps k b) = length b"
  by (induction ps arbitrary: k b) simp_all

lemma length_laswp_rev [simp]: "length (laswp_rev ps k b) = length b"
  by (induction ps arbitrary: k b) simp_all

lemma laswp_Suc_Cons: "laswp (map Suc ps) (Suc k) (x # xs) = x # laswp ps k xs"
  by (induction ps arbitrary: k xs) simp_all

lemma laswp_rev_Suc_Cons: "laswp_rev (map Suc ps) (Suc k) (x # xs) = x # laswp_rev ps k xs"
  by (induction ps arbitrary: k xs) simp_all

lemma valid_piv_Suc: "valid_piv k n ps \<Longrightarrow> valid_piv (Suc k) (Suc n) (map Suc ps)"
  by (induction ps arbitrary: k) simp_all

lemma laswp_map: "valid_piv k (length u) ps \<Longrightarrow> laswp ps k (map f u) = map f (laswp ps k u)"
proof (induction ps arbitrary: k u)
  case Nil
  show ?case by simp
next
  case (Cons p ps)
  then have "k < length u" and "p < length u" and "valid_piv (Suc k) (length (swap k p u)) ps"
    by simp_all
  with Cons.IH [of "Suc k" "swap k p u"] show ?case
    by (simp add: map_swap)
qed

lemma laswp_zip:
  "valid_piv k (length u) ps \<Longrightarrow> length u = length v \<Longrightarrow>
   laswp ps k (zip u v) = zip (laswp ps k u) (laswp ps k v)"
proof (induction ps arbitrary: k u v)
  case Nil
  show ?case by simp
next
  case (Cons p ps)
  then have "k < length u" and "p < length u" and "valid_piv (Suc k) (length (swap k p u)) ps"
    by simp_all
  with Cons.prems Cons.IH [of "Suc k" "swap k p u" "swap k p v"] show ?case
    by (simp add: zip_swap)
qed

lemma laswp_vsub_smult:
  assumes "valid_piv k (length u) ps" and "length u = length v"
  shows "laswp ps k (vsub u (smult c v)) = vsub (laswp ps k u) (smult c (laswp ps k v))"
proof -
  have "laswp ps k (smult c v) = smult c (laswp ps k v)"
    unfolding smult_def using assms by (simp add: laswp_map)
  moreover have "laswp ps k (vsub u (smult c v))
      = vsub (laswp ps k u) (laswp ps k (smult c v))"
    unfolding vsub_def using assms by (simp add: laswp_map laswp_zip)
  ultimately show ?thesis by simp
qed

lemma dot_laswp:
  "valid_piv k (length u) ps \<Longrightarrow> length u = length w \<Longrightarrow>
   dot (laswp ps k u) w = dot u (laswp_rev ps k w)"
proof (induction ps arbitrary: k u)
  case Nil
  show ?case by simp
next
  case (Cons p ps)
  then have k: "k < length u" and p: "p < length u"
    and v: "valid_piv (Suc k) (length (swap k p u)) ps"
    by simp_all
  have "dot (laswp (p # ps) k u) w = dot (swap k p u) (laswp_rev ps (Suc k) w)"
    using Cons.IH [OF v] Cons.prems(2) by simp
  also have "\<dots> = dot u (swap k p (laswp_rev ps (Suc k) w))"
    using k p Cons.prems(2) by (simp add: dot_swap_left)
  finally show ?case by simp
qed

subsection \<open>A square matrix in blocks\<close>

lemma map2_Cons_hd_tl: "list_all (\<lambda>x. x \<noteq> []) xs \<Longrightarrow> map2 (#) (map hd xs) (map tl xs) = xs"
  by (induction xs) simp_all

lemma map_hd_map2_Cons: "length c = length B \<Longrightarrow> map hd (map2 (#) c B) = c"
  by (induction c B rule: list_induct2) simp_all

lemma map_tl_map2_Cons: "length c = length B \<Longrightarrow> map tl (map2 (#) c B) = B"
  by (induction c B rule: list_induct2) simp_all

lemma square_blocks:
  assumes "is_square (Suc m) A"
  obtains a r c B where "A = (a # r) # map2 (#) c B"
    and "length r = m" and "length c = m" and "is_square m B"
proof -
  from assms obtain row rows where A: "A = row # rows" and rows: "length rows = m"
    and len: "length row = Suc m" and all: "list_all (\<lambda>x. length x = Suc m) rows"
    by (cases A) (auto simp: is_square_def)
  from len obtain a r where row: "row = a # r" and r: "length r = m"
    by (cases row) auto
  from all have "list_all (\<lambda>x. x \<noteq> []) rows"
    by (auto simp: list_all_iff)
  then have "map2 (#) (map hd rows) (map tl rows) = rows"
    by (rule map2_Cons_hd_tl)
  with A row have "A = (a # r) # map2 (#) (map hd rows) (map tl rows)" by simp
  moreover from all rows have "is_square m (map tl rows)"
    by (auto simp: is_square_def list_all_iff)
  ultimately show thesis using that r rows by simp
qed

lemma is_square_blocks:
  assumes "is_square m B" and "length c = m" and "length r = m"
  shows "is_square (Suc m) ((a # r) # map2 (#) c B)"
proof -
  have "length x = Suc m" if "x \<in> set (map2 (#) c B)" for x
  proof -
    from that obtain ci bi where "x = ci # bi" and "bi \<in> set B"
      by (auto dest: set_zip_rightD)
    with assms(1) show ?thesis by (simp add: is_square_def list_all_iff)
  qed
  with assms show ?thesis by (simp add: is_square_def list_all_iff)
qed

lemma length_multipliers [simp]: "length (multipliers a c) = length c"
  by (simp add: multipliers_def)

lemma is_square_schur_update:
  assumes "is_square m B" and "length l = m" and "length r = m"
  shows "is_square m (schur_update l r B)"
proof -
  have "length x = m" if "x \<in> set (schur_update l r B)" for x
  proof -
    from that obtain li bi where "x = vsub bi (smult li r)" and "bi \<in> set B"
      unfolding schur_update_def by (auto dest: set_zip_rightD)
    with assms show ?thesis by (simp add: is_square_def list_all_iff)
  qed
  with assms show ?thesis by (simp add: is_square_def list_all_iff schur_update_def)
qed

subsection \<open>One step of the factorization\<close>

declare lu_factor.simps(2) [simp del]

lemma lu_factor_step:
  assumes "A \<noteq> []" and "swap 0 (argmax_abs (map hd A)) A = (a # r) # map2 (#) c B"
    and "length c = length B"
  shows "lu_factor A =
     (case lu_factor (schur_update (multipliers a c) r B) of
        (LU', piv') \<Rightarrow>
          ((a # r) # map2 (#) (laswp piv' 0 (multipliers a c)) LU',
           argmax_abs (map hd A) # map Suc piv'))"
proof -
  from assms(1) obtain row rows where A: "A = row # rows" by (cases A) auto
  have h: "map hd (map2 (#) c B) = c" and t: "map tl (map2 (#) c B) = B"
    using assms(3) by (rule map_hd_map2_Cons, rule map_tl_map2_Cons)
  show ?thesis
    unfolding A lu_factor.simps(2) Let_def assms(2) [unfolded A]
    by (simp only: list.sel h t)
qed

text \<open>The pivot step on a square matrix: what is exchanged, and what the pivot dominates.\<close>

lemma pivot_step:
  assumes "is_square (Suc m) A"
  obtains p a r c B where "p = argmax_abs (map hd A)" and "p < Suc m"
    and "swap 0 p A = (a # r) # map2 (#) c B"
    and "length r = m" and "length c = m" and "is_square m B"
    and "\<forall>x \<in> set c. \<bar>x\<bar> \<le> \<bar>a\<bar>"
proof -
  let ?col = "map hd A"
  let ?p = "argmax_abs ?col"
  from assms have lenA: "length A = Suc m" by (simp add: is_square_def)
  then have "?col \<noteq> []" by auto
  then have "?p < length ?col" by (rule argmax_abs_less)
  with lenA have p: "?p < Suc m" by simp
  with assms have "is_square (Suc m) (swap 0 ?p A)" by (simp add: is_square_swap)
  then obtain a r c B where blocks: "swap 0 ?p A = (a # r) # map2 (#) c B"
    and r: "length r = m" and c: "length c = m" and B: "is_square m B"
    by (rule square_blocks)
  from B c have cB: "length c = length B" by (simp add: is_square_def)
  have col: "map hd (swap 0 ?p A) = a # c"
    unfolding blocks by (simp only: list.map list.sel map_hd_map2_Cons [OF cB])
  have colswap: "map hd (swap 0 ?p A) = swap 0 ?p ?col"
    using p lenA by (simp add: map_swap)
  have "a = ?col ! ?p"
  proof -
    have "a = (swap 0 ?p ?col) ! 0" using col colswap by simp
    also have "\<dots> = ?col ! ?p" using p lenA by (simp add: swap_def nth_list_update)
    finally show ?thesis .
  qed
  moreover have "\<bar>x\<bar> \<le> \<bar>?col ! ?p\<bar>" if "x \<in> set c" for x
  proof -
    from that have "x \<in> set (swap 0 ?p ?col)" using col colswap by (metis list.set_intros(2))
    then have "x \<in> set ?col" using p lenA by (simp add: set_swap)
    then obtain i where "i < length ?col" and "x = ?col ! i" by (auto simp: in_set_conv_nth)
    then show ?thesis using argmax_abs_max [of i ?col] by simp
  qed
  ultimately have "\<forall>x \<in> set c. \<bar>x\<bar> \<le> \<bar>a\<bar>" by simp
  with that [OF refl p blocks r c B] show thesis .
qed

text \<open>Shapes of the result.\<close>

lemma lu_factor_shape:
  "is_square n A \<Longrightarrow> lu_factor A = (LU, piv) \<Longrightarrow>
   is_square n LU \<and> length piv = n \<and> valid_piv 0 n piv"
proof (induction n arbitrary: A LU piv)
  case 0
  then show ?case by (simp add: is_square_def)
next
  case (Suc m)
  from Suc.prems(1) obtain p a r c B where p: "p = argmax_abs (map hd A)" "p < Suc m"
    and blocks: "swap 0 p A = (a # r) # map2 (#) c B"
    and r: "length r = m" and c: "length c = m" and B: "is_square m B"
    by (rule pivot_step)
  let ?l = "multipliers a c"
  let ?S = "schur_update ?l r B"
  obtain LU' piv' where sub: "lu_factor ?S = (LU', piv')" by (cases "lu_factor ?S")
  from B c r have "is_square m ?S" by (simp add: is_square_schur_update)
  from Suc.IH [OF this sub] have LU': "is_square m LU'" and piv': "length piv' = m"
    and valid: "valid_piv 0 m piv'" by simp_all
  from Suc.prems(1) have "A \<noteq> []" by (auto simp: is_square_def)
  moreover from B c have "length c = length B" by (simp add: is_square_def)
  ultimately have "lu_factor A = ((a # r) # map2 (#) (laswp piv' 0 ?l) LU', p # map Suc piv')"
    using blocks sub unfolding p(1) by (simp add: lu_factor_step)
  with Suc.prems(2) have LU: "LU = (a # r) # map2 (#) (laswp piv' 0 ?l) LU'"
    and piv: "piv = p # map Suc piv'" by simp_all
  from LU' c r have "is_square (Suc m) LU" unfolding LU by (intro is_square_blocks) simp_all
  moreover from piv' have "length piv = Suc m" by (simp add: piv)
  moreover from valid p(2) have "valid_piv 0 (Suc m) piv" by (simp add: piv valid_piv_Suc)
  ultimately show ?case by simp
qed

subsection \<open>The elimination step as linear algebra\<close>

lemma mat_vec_augmented:
  "length c = length B \<Longrightarrow>
   mat_vec (map2 (#) c B) (x0 # xs) = map2 (\<lambda>ci bi. ci * x0 + dot bi xs) c B"
  by (induction c B rule: list_induct2) simp_all

lemma mat_vec_schur_update:
  "length l = length B \<Longrightarrow> list_all (\<lambda>bi. length bi = length r) B \<Longrightarrow>
   mat_vec (schur_update l r B) xs = map2 (\<lambda>li bi. dot bi xs - li * dot r xs) l B"
  by (induction l B rule: list_induct2) (simp_all add: schur_update_def dot_vsub dot_smult)

lemma eliminated_rows:
  assumes "a \<noteq> 0" and "a * x0 + dot r xs = \<beta>"
  shows "length c = length B \<Longrightarrow> length B = length bs \<Longrightarrow>
    map2 (\<lambda>li bi. dot bi xs - li * dot r xs) (map (\<lambda>x. x / a) c) B
      = vsub bs (smult \<beta> (map (\<lambda>x. x / a) c)) \<Longrightarrow>
    map2 (\<lambda>ci bi. ci * x0 + dot bi xs) c B = bs"
proof (induction c B bs rule: list_induct3)
  case Nil
  show ?case by simp
next
  case (Cons ci c bi B y bs)
  from Cons.prems have hd: "dot bi xs - ci / a * dot r xs = y - \<beta> * (ci / a)"
    and tl: "map2 (\<lambda>li bi. dot bi xs - li * dot r xs) (map (\<lambda>x. x / a) c) B
               = vsub bs (smult \<beta> (map (\<lambda>x. x / a) c))"
    by simp_all
  from assms(2) have "\<beta> - dot r xs = a * x0" by simp
  moreover from hd have "dot bi xs = y - ci / a * (\<beta> - dot r xs)"
    by (simp add: algebra_simps)
  moreover from assms(1) have "ci / a * (a * x0) = ci * x0" by simp
  ultimately have "ci * x0 + dot bi xs = y" by simp
  with Cons.IH [OF tl] show ?case by simp
qed

text \<open>
  If the reduced system is solved by \<open>xs\<close> and the pivot row by \<open>x0\<close>, the matrix in
  blocks is solved by \<open>x0 # xs\<close>.
\<close>

lemma blocks_solved:
  assumes a: "a \<noteq> 0" and r: "length r = m" and c: "length c = m" and B: "is_square m B"
    and bs: "length bs = m"
    and sub: "mat_vec (schur_update (multipliers a c) r B) xs
               = vsub bs (smult \<beta> (multipliers a c))"
    and x0: "a * x0 + dot r xs = \<beta>"
  shows "mat_vec ((a # r) # map2 (#) c B) (x0 # xs) = \<beta> # bs"
proof -
  from B c have cB: "length c = length B" and rows: "list_all (\<lambda>bi. length bi = length r) B"
    using r by (simp_all add: is_square_def)
  from B bs have Bbs: "length B = length bs" by (simp add: is_square_def)
  from a have l: "multipliers a c = map (\<lambda>x. x / a) c" by (simp add: multipliers_def)
  have "map2 (\<lambda>li bi. dot bi xs - li * dot r xs) (map (\<lambda>x. x / a) c) B
      = vsub bs (smult \<beta> (map (\<lambda>x. x / a) c))"
    using sub [unfolded l] mat_vec_schur_update [of "map (\<lambda>x. x / a) c" B r xs] cB rows
    by simp
  with a x0 cB Bbs have "map2 (\<lambda>ci bi. ci * x0 + dot bi xs) c B = bs"
    by (rule eliminated_rows)
  with x0 cB show ?thesis
    by (simp add: mat_vec_augmented)
qed

lemma mat_vec_unswap:
  assumes "p < length A" and "0 < length A" and "mat_vec (swap 0 p A) x = b"
  shows "mat_vec A x = swap 0 p b"
proof -
  from assms have "swap 0 p (mat_vec A x) = b" by (simp add: mat_vec_swap)
  then have "swap 0 p (swap 0 p (mat_vec A x)) = swap 0 p b" by simp
  with assms(1,2) show ?thesis by (simp add: swap_swap)
qed

lemma vsub_zeros: "vsub (replicate m 0) (smult 0 l) = replicate (min m (length l)) 0"
proof (induction l arbitrary: m)
  case Nil
  show ?case by simp
next
  case (Cons x l)
  then show ?case by (cases m) simp_all
qed

lemma zero_column:
  "length c = length B \<Longrightarrow> \<forall>x \<in> set c. x = 0 \<Longrightarrow>
   map2 (\<lambda>ci bi. ci * 1 + dot bi (replicate m 0)) c B = replicate (length c) (0::real)"
  by (induction c B rule: list_induct2) simp_all

text \<open>A nonsingular matrix has a nonzero pivot, and its reduced matrix is nonsingular.\<close>

lemma nonsingular_pivot:
  assumes sq: "is_square (Suc m) A" and ns: "nonsingular (Suc m) A"
    and p: "p < Suc m" and blocks: "swap 0 p A = (a # r) # map2 (#) c B"
    and r: "length r = m" and c: "length c = m" and B: "is_square m B"
    and dom: "\<forall>x \<in> set c. \<bar>x\<bar> \<le> \<bar>a\<bar>"
  shows "a \<noteq> 0"
proof
  assume a: "a = 0"
  from sq have lenA: "length A = Suc m" by (simp add: is_square_def)
  from B c have cB: "length c = length B" by (simp add: is_square_def)
  from dom a have "\<forall>x \<in> set c. x = 0" by simp
  with cB have "map2 (\<lambda>ci bi. ci * 1 + dot bi (replicate m 0)) c B = replicate (length c) 0"
    by (rule zero_column)
  then have "mat_vec (swap 0 p A) (1 # replicate m 0) = replicate (Suc m) 0"
    unfolding blocks using cB a c by (simp add: mat_vec_augmented)
  then have "mat_vec A (1 # replicate m 0) = swap 0 p (replicate (Suc m) 0)"
    using p lenA by (intro mat_vec_unswap) simp_all
  then have "mat_vec A (1 # replicate m 0) = replicate (Suc m) 0"
    using p by (simp add: swap_replicate del: replicate_Suc)
  with ns have "1 # replicate m 0 = replicate (Suc m) (0::real)"
    unfolding nonsingular_def by (metis length_Cons length_replicate)
  then show False by simp
qed

lemma nonsingular_schur_update:
  assumes sq: "is_square (Suc m) A" and ns: "nonsingular (Suc m) A"
    and p: "p < Suc m" and blocks: "swap 0 p A = (a # r) # map2 (#) c B"
    and r: "length r = m" and c: "length c = m" and B: "is_square m B"
    and a: "a \<noteq> 0"
  shows "nonsingular m (schur_update (multipliers a c) r B)"
  unfolding nonsingular_def
proof (intro allI impI)
  fix ys :: vec
  assume len: "length ys = m"
    and zero: "mat_vec (schur_update (multipliers a c) r B) ys = replicate m 0"
  from sq have lenA: "length A = Suc m" by (simp add: is_square_def)
  let ?x0 = "- dot r ys / a"
  from a have x0: "a * ?x0 + dot r ys = 0" by simp
  from c have "vsub (replicate m 0) (smult 0 (multipliers a c)) = replicate m 0"
    by (simp add: vsub_zeros)
  with zero have "mat_vec (schur_update (multipliers a c) r B) ys
      = vsub (replicate m 0) (smult 0 (multipliers a c))" by simp
  with a r c B x0 have "mat_vec ((a # r) # map2 (#) c B) (?x0 # ys) = 0 # replicate m 0"
    by (intro blocks_solved) simp_all
  then have "mat_vec (swap 0 p A) (?x0 # ys) = replicate (Suc m) 0"
    by (simp add: blocks)
  then have "mat_vec A (?x0 # ys) = swap 0 p (replicate (Suc m) 0)"
    using p lenA by (intro mat_vec_unswap) simp_all
  then have "mat_vec A (?x0 # ys) = replicate (Suc m) 0"
    using p by (simp add: swap_replicate del: replicate_Suc)
  moreover from len have "length (?x0 # ys) = Suc m" by simp
  ultimately have "?x0 # ys = replicate (Suc m) 0"
    using ns unfolding nonsingular_def by blast
  then show "ys = replicate m 0" by simp
qed

text \<open>The solve with the factors of the whole matrix, in terms of the solve with the
  factors of the reduced matrix.\<close>

lemma lu_solve_forward_step:
  assumes LU': "is_square m LU'" and piv': "valid_piv 0 m piv'"
    and l: "length l = m" and bs: "length bs = m" and that: "swap 0 p b = \<beta> # bs"
  shows "lu_solve ((a # r) # map2 (#) (laswp piv' 0 l) LU', p # map Suc piv') b 0
       = (let xs = lu_solve (LU', piv') (vsub (tl (swap 0 p b)) (smult (hd (swap 0 p b)) l)) 0
          in (hd (swap 0 p b) - dot r xs) / a # xs)"
proof -
  let ?l' = "laswp piv' 0 l"
  from LU' l have len: "length ?l' = length LU'" by (simp add: is_square_def)
  have h: "map hd (map2 (#) ?l' LU') = ?l'" and t: "map tl (map2 (#) ?l' LU') = LU'"
    using len by (rule map_hd_map2_Cons, rule map_tl_map2_Cons)
  have perm: "laswp (p # map Suc piv') 0 b = \<beta> # laswp piv' 0 bs"
    using that by (simp add: laswp_Suc_Cons)
  have "vsub (laswp piv' 0 bs) (smult \<beta> ?l') = laswp piv' 0 (vsub bs (smult \<beta> l))"
    using piv' l bs by (simp add: laswp_vsub_smult)
  then have fwd: "fwd_subst ((a # r) # map2 (#) ?l' LU') (\<beta> # laswp piv' 0 bs)
      = \<beta> # fwd_subst LU' (laswp piv' 0 (vsub bs (smult \<beta> l)))"
    by (simp only: fwd_subst.simps h t)
  show ?thesis
    unfolding lu_solve_def prod.case perm fwd that
    by (simp only: back_subst.simps list.sel t Let_def if_True refl)
qed

lemma lu_solve_forward:
  "is_square n A \<Longrightarrow> nonsingular n A \<Longrightarrow> length b = n \<Longrightarrow>
   mat_vec A (lu_solve (lu_factor A) b 0) = b"
proof (induction n arbitrary: A b)
  case 0
  then show ?case by (simp add: is_square_def lu_solve_def)
next
  case (Suc m)
  from Suc.prems(1) obtain p a r c B where p: "p = argmax_abs (map hd A)" "p < Suc m"
    and blocks: "swap 0 p A = (a # r) # map2 (#) c B"
    and r: "length r = m" and c: "length c = m" and B: "is_square m B"
    and dom: "\<forall>x \<in> set c. \<bar>x\<bar> \<le> \<bar>a\<bar>"
    by (rule pivot_step)
  from Suc.prems(1) have lenA: "length A = Suc m" by (simp add: is_square_def)
  let ?l = "multipliers a c"
  let ?S = "schur_update ?l r B"
  from Suc.prems(1,2) p(2) blocks r c B dom have a: "a \<noteq> 0" by (rule nonsingular_pivot)
  from Suc.prems(1,2) p(2) blocks r c B a have nsS: "nonsingular m ?S"
    by (rule nonsingular_schur_update)
  from B c r have sqS: "is_square m ?S" by (simp add: is_square_schur_update)
  obtain LU' piv' where sub: "lu_factor ?S = (LU', piv')" by (cases "lu_factor ?S")
  from lu_factor_shape [OF sqS sub] have LU': "is_square m LU'"
    and valid: "valid_piv 0 m piv'" by simp_all
  from lenA have "A \<noteq> []" by auto
  moreover from B c have "length c = length B" by (simp add: is_square_def)
  ultimately have fac: "lu_factor A = ((a # r) # map2 (#) (laswp piv' 0 ?l) LU', p # map Suc piv')"
    using blocks sub unfolding p(1) by (simp add: lu_factor_step)
  from Suc.prems(3) have "length (swap 0 p b) = Suc m" by simp
  then obtain \<beta> bs where b': "swap 0 p b = \<beta> # bs" and bs: "length bs = m"
    by (cases "swap 0 p b") auto
  let ?d = "vsub bs (smult \<beta> ?l)"
  let ?xs = "lu_solve (lu_factor ?S) ?d 0"
  let ?x0 = "(\<beta> - dot r ?xs) / a"
  from c have lenl: "length ?l = m" by simp
  have solve: "lu_solve (lu_factor A) b 0 = ?x0 # ?xs"
    unfolding fac sub lu_solve_forward_step [OF LU' valid lenl bs b'] b'
    by (simp add: Let_def)
  from bs c have "length ?d = m" by simp
  with sqS nsS have IH: "mat_vec ?S ?xs = ?d" by (rule Suc.IH)
  from a have "a * ?x0 + dot r ?xs = \<beta>" by simp
  with a r c B bs IH have "mat_vec ((a # r) # map2 (#) c B) (?x0 # ?xs) = \<beta> # bs"
    by (intro blocks_solved)
  then have "mat_vec (swap 0 p A) (?x0 # ?xs) = swap 0 p b"
    by (simp only: blocks b')
  then have "mat_vec A (?x0 # ?xs) = swap 0 p (swap 0 p b)"
    using p(2) lenA by (intro mat_vec_unswap [of p A]) simp_all
  with p(2) Suc.prems(3) show ?case
    by (simp add: solve swap_swap)
qed

subsection \<open>Products as sums over indices\<close>

lemma dot_sum:
  assumes "length u = n" and "length v = n"
  shows "dot u v = (\<Sum>i<n. u ! i * v ! i)"
proof -
  have "dot u v = (\<Sum>i = 0..<length (map2 (*) u v). map2 (*) u v ! i)"
    unfolding dot_def by (rule sum_list_sum_nth)
  also have "\<dots> = (\<Sum>i = 0..<n. u ! i * v ! i)"
    using assms by (intro sum.cong) simp_all
  finally show ?thesis by (simp add: atLeast0LessThan)
qed

lemma is_square_nth: "is_square n M \<Longrightarrow> i < n \<Longrightarrow> length (M ! i) = n"
  by (simp add: is_square_def list_all_length)

lemma nth_mat_vec:
  assumes "is_square n M" and "length x = n" and "i < n"
  shows "mat_vec M x ! i = (\<Sum>j<n. M ! i ! j * x ! j)"
proof -
  from assms have "mat_vec M x ! i = dot (M ! i) x"
    by (simp add: mat_vec_def is_square_def)
  with assms show ?thesis by (simp add: dot_sum [of _ n] is_square_nth)
qed

lemma mat_vec_mtranspose:
  "mat_vec (mtranspose A) x = map (\<lambda>k. dot (col k A) x) [0..<length A]"
  by (simp add: mat_vec_def mtranspose_def o_def)

lemma nth_mat_vec_mtranspose:
  assumes "is_square n M" and "length y = n" and "j < n"
  shows "mat_vec (mtranspose M) y ! j = (\<Sum>i<n. M ! i ! j * y ! i)"
proof -
  from assms have len: "length M = n" by (simp add: is_square_def)
  with assms have "mat_vec (mtranspose M) y ! j = dot (col j M) y"
    by (simp add: mat_vec_mtranspose)
  also have "\<dots> = (\<Sum>i<n. col j M ! i * y ! i)"
    using len assms(2) by (intro dot_sum) (simp_all add: col_def)
  also have "\<dots> = (\<Sum>i<n. M ! i ! j * y ! i)"
    using len by (intro sum.cong) (simp_all add: col_def)
  finally show ?thesis .
qed

text \<open>The transpose is the adjoint for the dot product.\<close>

lemma dot_mat_vec_adjoint:
  assumes M: "is_square n M" and x: "length x = n" and y: "length y = n"
  shows "dot (mat_vec M x) y = dot x (mat_vec (mtranspose M) y)"
proof -
  from M have len: "length M = n" by (simp add: is_square_def)
  have "dot (mat_vec M x) y = (\<Sum>i<n. mat_vec M x ! i * y ! i)"
    using len y by (intro dot_sum) simp_all
  also have "\<dots> = (\<Sum>i<n. \<Sum>j<n. M ! i ! j * x ! j * y ! i)"
    using M x by (intro sum.cong refl) (simp add: nth_mat_vec sum_distrib_right)
  also have "\<dots> = (\<Sum>j<n. \<Sum>i<n. M ! i ! j * x ! j * y ! i)"
    by (rule sum.swap)
  also have "\<dots> = (\<Sum>j<n. x ! j * mat_vec (mtranspose M) y ! j)"
    using M y by (intro sum.cong refl)
      (simp add: nth_mat_vec_mtranspose sum_distrib_left algebra_simps)
  also have "\<dots> = dot x (mat_vec (mtranspose M) y)"
    using len x by (intro dot_sum [symmetric]) (simp_all add: mat_vec_mtranspose)
  finally show ?thesis .
qed

subsection \<open>Invertible matrices are nonsingular\<close>

lemma nth_mat_mul:
  assumes "is_square n N" and "is_square n M" and "i < n" and "j < n"
  shows "mat_mul N M ! i ! j = (\<Sum>k<n. N ! i ! k * M ! k ! j)"
proof -
  from assms have lenN: "length N = n" and lenM: "length M = n"
    by (simp_all add: is_square_def)
  with assms have "mat_mul N M ! i ! j = dot (N ! i) (col j M)"
    by (simp add: mat_mul_def)
  also have "\<dots> = (\<Sum>k<n. N ! i ! k * col j M ! k)"
    using assms lenM by (intro dot_sum) (simp_all add: is_square_nth col_def)
  also have "\<dots> = (\<Sum>k<n. N ! i ! k * M ! k ! j)"
    using lenM by (intro sum.cong) (simp_all add: col_def)
  finally show ?thesis .
qed

lemma is_square_mat_mul:
  "is_square n N \<Longrightarrow> is_square n M \<Longrightarrow> is_square n (mat_mul N M)"
  by (simp add: is_square_def mat_mul_def list_all_iff)

lemma mat_vec_mat_mul:
  assumes N: "is_square n N" and M: "is_square n M" and x: "length x = n"
  shows "mat_vec (mat_mul N M) x = mat_vec N (mat_vec M x)"
proof (rule nth_equalityI)
  show "length (mat_vec (mat_mul N M) x) = length (mat_vec N (mat_vec M x))"
    by (simp add: mat_mul_def)
next
  fix i assume "i < length (mat_vec (mat_mul N M) x)"
  with N have i: "i < n" by (simp add: mat_mul_def is_square_def)
  from M have lenM: "length M = n" by (simp add: is_square_def)
  have "mat_vec (mat_mul N M) x ! i = (\<Sum>j<n. mat_mul N M ! i ! j * x ! j)"
    using is_square_mat_mul [OF N M] x i by (rule nth_mat_vec)
  also have "\<dots> = (\<Sum>j<n. \<Sum>k<n. N ! i ! k * M ! k ! j * x ! j)"
    using N M i by (intro sum.cong refl) (simp add: nth_mat_mul sum_distrib_right)
  also have "\<dots> = (\<Sum>k<n. \<Sum>j<n. N ! i ! k * M ! k ! j * x ! j)"
    by (rule sum.swap)
  also have "\<dots> = (\<Sum>k<n. N ! i ! k * mat_vec M x ! k)"
    using M x by (intro sum.cong refl) (simp add: nth_mat_vec sum_distrib_left algebra_simps)
  also have "\<dots> = mat_vec N (mat_vec M x) ! i"
    using N lenM i by (intro nth_mat_vec [symmetric]) simp_all
  finally show "mat_vec (mat_mul N M) x ! i = mat_vec N (mat_vec M x) ! i" .
qed

lemma mat_vec_identity:
  assumes "length x = n"
  shows "mat_vec (identity n) x = x"
proof (rule nth_equalityI)
  show "length (mat_vec (identity n) x) = length x"
    using assms by (simp add: identity_def)
next
  fix i assume "i < length (mat_vec (identity n) x)"
  then have i: "i < n" by (simp add: identity_def)
  have sq: "is_square n (identity n)"
    by (simp add: is_square_def identity_def list_all_iff)
  have "mat_vec (identity n) x ! i = (\<Sum>j<n. identity n ! i ! j * x ! j)"
    using sq assms i by (rule nth_mat_vec)
  also have "\<dots> = (\<Sum>j<n. if j = i then x ! j else 0)"
    using i by (intro sum.cong refl) (auto simp: identity_def)
  also have "\<dots> = x ! i"
    using i by simp
  finally show "mat_vec (identity n) x ! i = x ! i" .
qed

lemma mat_vec_zeros: "mat_vec N (replicate n 0) = replicate (length N) 0"
  by (induction N) simp_all

lemma invertible_nonsingular:
  assumes M: "is_square n M" and inv: "invertible n M"
  shows "nonsingular n M"
  unfolding nonsingular_def
proof (intro allI impI)
  fix x :: vec
  assume x: "length x = n" and zero: "mat_vec M x = replicate n 0"
  from inv obtain N where N: "is_square n N" and left: "mat_mul N M = identity n"
    unfolding invertible_def by blast
  from N have lenN: "length N = n" by (simp add: is_square_def)
  have "x = mat_vec (identity n) x" using x by (simp add: mat_vec_identity)
  also have "\<dots> = mat_vec N (mat_vec M x)"
    unfolding left [symmetric] using N M x by (rule mat_vec_mat_mul)
  also have "\<dots> = replicate n 0"
    unfolding zero using lenN by (simp add: mat_vec_zeros)
  finally show "x = replicate n 0" .
qed

subsection \<open>The transposed system\<close>

lemma col_Cons [simp]: "col j (row # A) = row ! j # col j A"
  by (simp add: col_def)

lemma col_Nil [simp]: "col j [] = []"
  by (simp add: col_def)

lemma col_0_augmented: "length c = length B \<Longrightarrow> col 0 (map2 (#) c B) = c"
  by (induction c B rule: list_induct2) simp_all

lemma col_Suc_augmented: "length c = length B \<Longrightarrow> col (Suc j) (map2 (#) c B) = col j B"
  by (induction c B rule: list_induct2) simp_all

lemma length_col [simp]: "length (col j A) = length A"
  by (simp add: col_def)

text \<open>The transpose of a matrix in blocks.\<close>

lemma mtranspose_blocks:
  assumes r: "length r = m" and c: "length c = m" and B: "is_square m B"
  shows "mtranspose ((a # r) # map2 (#) c B) = (a # c) # map2 (#) r (mtranspose B)"
proof -
  from B c have cB: "length c = length B" and lenB: "length B = m"
    by (simp_all add: is_square_def)
  have "map (\<lambda>j. col (Suc j) ((a # r) # map2 (#) c B)) [0..<m]
      = map (\<lambda>j. r ! j # col j B) [0..<m]"
    using cB by (simp add: col_Suc_augmented)
  also have "\<dots> = map2 (#) r (mtranspose B)"
    using r lenB by (intro nth_equalityI) (simp_all add: mtranspose_def)
  finally show ?thesis
    using cB c by (simp add: mtranspose_def map_upt_Suc col_0_augmented del: upt_Suc)
qed

lemma is_square_mtranspose: "is_square m B \<Longrightarrow> is_square m (mtranspose B)"
  by (simp add: is_square_def mtranspose_def list_all_iff)

text \<open>Transposition exchanges the two vectors of the update of the reduced matrix.\<close>

lemma col_schur_update:
  "length l = length B \<Longrightarrow> list_all (\<lambda>bi. length bi = length r) B \<Longrightarrow> j < length r \<Longrightarrow>
   col j (schur_update l r B) = vsub (col j B) (smult (r ! j) l)"
  by (induction l B rule: list_induct2)
     (simp_all add: schur_update_def vsub_def smult_def)

lemma mtranspose_schur_update:
  assumes l: "length l = m" and r: "length r = m" and B: "is_square m B"
  shows "mtranspose (schur_update l r B) = schur_update r l (mtranspose B)"
proof (rule nth_equalityI)
  from B have lenB: "length B = m" by (simp add: is_square_def)
  show "length (mtranspose (schur_update l r B)) = length (schur_update r l (mtranspose B))"
    using l r lenB by (simp add: mtranspose_def schur_update_def)
  fix j assume "j < length (mtranspose (schur_update l r B))"
  with l lenB have j: "j < m" by (simp add: mtranspose_def schur_update_def)
  from B r have rows: "list_all (\<lambda>bi. length bi = length r) B" by (simp add: is_square_def)
  have "mtranspose (schur_update l r B) ! j = col j (schur_update l r B)"
    using j l lenB by (simp add: mtranspose_def schur_update_def)
  also have "\<dots> = vsub (col j B) (smult (r ! j) l)"
    using l lenB rows j r by (intro col_schur_update) simp_all
  also have "\<dots> = schur_update r l (mtranspose B) ! j"
    using j r lenB by (simp add: schur_update_def mtranspose_def)
  finally show "mtranspose (schur_update l r B) ! j = schur_update r l (mtranspose B) ! j" .
qed

lemma transposed_rows:
  "length r = length Bt \<Longrightarrow> length Bt = length bs \<Longrightarrow>
   map2 (\<lambda>rj cj. dot cj ys - rj * dot l ys) r Bt = vsub bs (smult z0 r) \<Longrightarrow>
   map2 (\<lambda>rj cj. rj * (z0 - dot l ys) + dot cj ys) r Bt = bs"
proof (induction r Bt bs rule: list_induct3)
  case Nil
  show ?case by simp
next
  case (Cons rj r cj Bt y bs)
  from Cons.prems have hd: "dot cj ys - rj * dot l ys = y - z0 * rj"
    and tl: "map2 (\<lambda>rj cj. dot cj ys - rj * dot l ys) r Bt = vsub bs (smult z0 r)"
    by simp_all
  from hd have "rj * (z0 - dot l ys) + dot cj ys = y" by (simp add: algebra_simps)
  with Cons.IH [OF tl] show ?case by simp
qed

lemma dot_divided: "a \<noteq> 0 \<Longrightarrow> a * dot (map (\<lambda>x. x / a) c) ys = dot c ys"
proof (induction c arbitrary: ys)
  case Nil
  show ?case by simp
next
  case (Cons x c)
  then show ?case by (cases ys) (simp_all add: algebra_simps)
qed

text \<open>
  If the transposed reduced system is solved by \<open>ys\<close>, the transposed matrix in blocks
  is solved by \<open>(z0 - l \<cdot> ys) # ys\<close> with \<open>z0 = \<beta> / a\<close>.
\<close>

lemma blocks_solved_transposed:
  assumes a: "a \<noteq> 0" and r: "length r = m" and c: "length c = m" and B: "is_square m B"
    and bs: "length bs = m"
    and sub: "mat_vec (mtranspose (schur_update (multipliers a c) r B)) ys
               = vsub bs (smult (\<beta> / a) r)"
  shows "mat_vec (mtranspose ((a # r) # map2 (#) c B))
           ((\<beta> / a - dot (multipliers a c) ys) # ys) = \<beta> # bs"
proof -
  let ?l = "multipliers a c"
  let ?Bt = "mtranspose B"
  from B have Bt: "is_square m ?Bt" by (rule is_square_mtranspose)
  from c have l: "length ?l = m" by simp
  from Bt r have rB: "length r = length ?Bt" by (simp add: is_square_def)
  from Bt bs have Bbs: "length ?Bt = length bs" by (simp add: is_square_def)
  from Bt l have rows: "list_all (\<lambda>bi. length bi = length ?l) ?Bt" by (simp add: is_square_def)
  have "mat_vec (schur_update r ?l ?Bt) ys = vsub bs (smult (\<beta> / a) r)"
    using sub by (simp add: mtranspose_schur_update [OF l r B])
  then have "map2 (\<lambda>rj cj. dot cj ys - rj * dot ?l ys) r ?Bt = vsub bs (smult (\<beta> / a) r)"
    by (simp add: mat_vec_schur_update [OF rB rows])
  with rB Bbs have rest: "map2 (\<lambda>rj cj. rj * (\<beta> / a - dot ?l ys) + dot cj ys) r ?Bt = bs"
    by (rule transposed_rows)
  from a have "a * dot ?l ys = dot c ys" by (simp add: multipliers_def dot_divided)
  with a have first: "a * (\<beta> / a - dot ?l ys) + dot c ys = \<beta>"
    by (simp add: algebra_simps)
  show ?thesis
    unfolding mtranspose_blocks [OF r c B]
    using first rest rB by (simp add: mat_vec_augmented)
qed

lemma mat_vec_mtranspose_swap:
  assumes "i < length A" and "j < length A" and "length w = length A"
  shows "mat_vec (mtranspose (swap i j A)) w = mat_vec (mtranspose A) (swap i j w)"
proof -
  have "dot (col k (swap i j A)) w = dot (col k A) (swap i j w)" for k
  proof -
    have "col k (swap i j A) = swap i j (col k A)"
      using assms by (simp add: col_def map_swap)
    with assms show ?thesis by (simp add: dot_swap_left)
  qed
  then show ?thesis by (simp add: mat_vec_mtranspose)
qed

lemma length_fwd_subst_UT:
  "is_square n LU \<Longrightarrow> length b = n \<Longrightarrow> length (fwd_subst_UT LU b) = n"
proof (induction n arbitrary: LU b)
  case 0
  then show ?case by (simp add: is_square_def)
next
  case (Suc m)
  from Suc.prems(1) obtain a r c B where LU: "LU = (a # r) # map2 (#) c B"
    and r: "length r = m" and c: "length c = m" and B: "is_square m B"
    by (rule square_blocks)
  from B c have t: "map tl (map2 (#) c B) = B"
    by (intro map_tl_map2_Cons) (simp add: is_square_def)
  from Suc.prems(2) obtain \<beta> bs where b: "b = \<beta> # bs" and bs: "length bs = m"
    by (cases b) auto
  from bs r have "length (vsub bs (smult (\<beta> / a) r)) = m" by simp
  with B have "length (fwd_subst_UT B (vsub bs (smult (\<beta> / a) r))) = m"
    by (rule Suc.IH)
  then show ?case
    unfolding LU b by (simp only: fwd_subst_UT.simps Let_def list.sel t length_Cons)
qed

lemma length_back_subst_LT:
  "length (back_subst_LT LU z) = min (length LU) (length z)"
  by (induction LU z rule: back_subst_LT.induct) (simp_all add: Let_def)

lemma lu_solve_transposed_step:
  assumes LU': "is_square m LU'" and piv': "valid_piv 0 m piv'"
    and l: "length l = m" and r: "length r = m" and bs: "length bs = m" and t: "t \<noteq> 0"
  shows "lu_solve ((a # r) # map2 (#) (laswp piv' 0 l) LU', p # map Suc piv') (\<beta> # bs) t
       = (let ys = lu_solve (LU', piv') (vsub bs (smult (\<beta> / a) r)) t
          in swap 0 p ((\<beta> / a - dot l ys) # ys))"
proof -
  let ?l' = "laswp piv' 0 l"
  let ?d = "vsub bs (smult (\<beta> / a) r)"
  let ?zs = "fwd_subst_UT LU' ?d"
  let ?ws = "back_subst_LT LU' ?zs"
  from LU' l have len: "length ?l' = length LU'" by (simp add: is_square_def)
  have h: "map hd (map2 (#) ?l' LU') = ?l'" and tl: "map tl (map2 (#) ?l' LU') = LU'"
    using len by (rule map_hd_map2_Cons, rule map_tl_map2_Cons)
  from bs r have "length ?d = m" by simp
  with LU' have "length ?zs = m" by (rule length_fwd_subst_UT)
  with LU' have ws: "length ?ws = m" by (simp add: length_back_subst_LT is_square_def)
  have fsub: "fwd_subst_UT ((a # r) # map2 (#) ?l' LU') (\<beta> # bs) = \<beta> / a # ?zs"
    by (simp only: fwd_subst_UT.simps Let_def list.sel tl)
  have bsub: "back_subst_LT ((a # r) # map2 (#) ?l' LU') (\<beta> / a # ?zs)
      = (\<beta> / a - dot ?l' ?ws) # ?ws"
    by (simp only: back_subst_LT.simps Let_def h tl)
  have "dot ?l' ?ws = dot l (laswp_rev piv' 0 ?ws)"
    using piv' l ws by (intro dot_laswp) simp_all
  then have "laswp_rev (p # map Suc piv') 0 ((\<beta> / a - dot ?l' ?ws) # ?ws)
      = swap 0 p ((\<beta> / a - dot l (laswp_rev piv' 0 ?ws)) # laswp_rev piv' 0 ?ws)"
    by (simp add: laswp_rev_Suc_Cons)
  with t show ?thesis
    unfolding lu_solve_def prod.case fsub bsub by (simp add: Let_def)
qed

lemma length_lu_solve_transposed:
  assumes "is_square m LU" and "length d = m" and "t \<noteq> 0"
  shows "length (lu_solve (LU, piv) d t) = m"
proof -
  from assms(1,2) have "length (fwd_subst_UT LU d) = m" by (rule length_fwd_subst_UT)
  with assms(1,3) show ?thesis
    by (simp add: lu_solve_def length_back_subst_LT is_square_def)
qed

lemma lu_solve_transposed:
  "is_square n A \<Longrightarrow> nonsingular n A \<Longrightarrow> length b = n \<Longrightarrow> t \<noteq> 0 \<Longrightarrow>
   mat_vec (mtranspose A) (lu_solve (lu_factor A) b t) = b"
proof (induction n arbitrary: A b)
  case 0
  then show ?case by (simp add: is_square_def lu_solve_def mtranspose_def)
next
  case (Suc m)
  from Suc.prems(1) obtain p a r c B where p: "p = argmax_abs (map hd A)" "p < Suc m"
    and blocks: "swap 0 p A = (a # r) # map2 (#) c B"
    and r: "length r = m" and c: "length c = m" and B: "is_square m B"
    and dom: "\<forall>x \<in> set c. \<bar>x\<bar> \<le> \<bar>a\<bar>"
    by (rule pivot_step)
  from Suc.prems(1) have lenA: "length A = Suc m" by (simp add: is_square_def)
  let ?l = "multipliers a c"
  let ?S = "schur_update ?l r B"
  from Suc.prems(1,2) p(2) blocks r c B dom have a: "a \<noteq> 0" by (rule nonsingular_pivot)
  from Suc.prems(1,2) p(2) blocks r c B a have nsS: "nonsingular m ?S"
    by (rule nonsingular_schur_update)
  from B c r have sqS: "is_square m ?S" by (simp add: is_square_schur_update)
  obtain LU' piv' where sub: "lu_factor ?S = (LU', piv')" by (cases "lu_factor ?S")
  from lu_factor_shape [OF sqS sub] have LU': "is_square m LU'"
    and valid: "valid_piv 0 m piv'" by simp_all
  from lenA have "A \<noteq> []" by auto
  moreover from B c have "length c = length B" by (simp add: is_square_def)
  ultimately have fac: "lu_factor A = ((a # r) # map2 (#) (laswp piv' 0 ?l) LU', p # map Suc piv')"
    using blocks sub unfolding p(1) by (simp add: lu_factor_step)
  from Suc.prems(3) obtain \<beta> bs where b: "b = \<beta> # bs" and bs: "length bs = m"
    by (cases b) auto
  let ?d = "vsub bs (smult (\<beta> / a) r)"
  let ?ys = "lu_solve (lu_factor ?S) ?d t"
  let ?w = "(\<beta> / a - dot ?l ?ys) # ?ys"
  from c have lenl: "length ?l = m" by simp
  have solve: "lu_solve (lu_factor A) b t = swap 0 p ?w"
    unfolding fac sub b lu_solve_transposed_step [OF LU' valid lenl r bs Suc.prems(4)]
    by (simp add: Let_def)
  from bs r have "length ?d = m" by simp
  with sqS nsS have IH: "mat_vec (mtranspose ?S) ?ys = ?d"
    using Suc.prems(4) by (rule Suc.IH)
  have lenys: "length ?ys = m"
    unfolding sub using LU' \<open>length ?d = m\<close> Suc.prems(4)
    by (rule length_lu_solve_transposed)
  have "mat_vec (mtranspose (swap 0 p A)) ?w = \<beta> # bs"
    unfolding blocks using a r c B bs IH by (rule blocks_solved_transposed)
  moreover have "mat_vec (mtranspose (swap 0 p A)) ?w = mat_vec (mtranspose A) (swap 0 p ?w)"
    using p(2) lenA lenys by (intro mat_vec_mtranspose_swap) simp_all
  ultimately have "mat_vec (mtranspose A) (swap 0 p ?w) = b" by (simp add: b)
  then show ?case by (simp only: solve)
qed

subsection \<open>The component\<close>

lemma length_fwd_subst:
  "is_square n LU \<Longrightarrow> length b = n \<Longrightarrow> length (fwd_subst LU b) = n"
proof (induction n arbitrary: LU b)
  case 0
  then show ?case by (simp add: is_square_def)
next
  case (Suc m)
  from Suc.prems(1) obtain a r c B where LU: "LU = (a # r) # map2 (#) c B"
    and r: "length r = m" and c: "length c = m" and B: "is_square m B"
    by (rule square_blocks)
  from B c have cB: "length c = length B" by (simp add: is_square_def)
  have h: "map hd (map2 (#) c B) = c" and t: "map tl (map2 (#) c B) = B"
    using cB by (rule map_hd_map2_Cons, rule map_tl_map2_Cons)
  from Suc.prems(2) obtain \<beta> bs where b: "b = \<beta> # bs" and bs: "length bs = m"
    by (cases b) auto
  from bs c have "length (vsub bs (smult \<beta> c)) = m" by simp
  with B have "length (fwd_subst B (vsub bs (smult \<beta> c))) = m"
    by (rule Suc.IH)
  then show ?case
    unfolding LU b by (simp only: fwd_subst.simps h t length_Cons)
qed

lemma length_back_subst:
  "length (back_subst LU y) = min (length LU) (length y)"
  by (induction LU y rule: back_subst.induct) (simp_all add: Let_def)

lemma length_lu_solve:
  assumes "is_square n LU" and "length piv = n" and "length b = n"
  shows "length (lu_solve (LU, piv) b t) = n"
proof (cases "t = 0")
  case True
  from assms(1,3) have "length (fwd_subst LU (laswp piv 0 b)) = n"
    by (intro length_fwd_subst) simp_all
  with assms(1) True show ?thesis
    by (simp add: lu_solve_def length_back_subst is_square_def)
next
  case False
  with assms show ?thesis by (simp add: length_lu_solve_transposed)
qed

lemma dot_zeros_left [simp]: "dot (replicate n 0) v = 0"
proof (induction v arbitrary: n)
  case Nil
  show ?case by simp
next
  case (Cons a v)
  then show ?case by (cases n) simp_all
qed

lemmas solver_eval_defs =
  is_square_def mat_mul_def identity_def col_def dot_def mat_vec_def vsub_def
  example_mtx_def example_inverse_def example_solver_def SolveMatrix_setup_def
  setup_system_size_def

lemma example_invertible: "invertible 2 example_mtx"
  unfolding invertible_def
  by (rule exI [of _ example_inverse]) (simp add: solver_eval_defs upt_rec)

lemma example_system_size: "system_size example_solver = 2"
  by (simp add: solver_eval_defs)

text \<open>
  C1: for every invertible matrix and every right-hand side of the declared shapes,
  \<^verbatim>\<open>solve_nonlinear\<close> returns circulations \<open>\<Gamma>\<close> with \<open>mtx \<cdot> \<Gamma> = rhs\<close>; the residual
  \<^verbatim>\<open>apply_nonlinear\<close> at \<open>\<Gamma>\<close> is \<open>mtx \<cdot> \<Gamma> - rhs\<close>, and it is the zero vector.  In
  exact arithmetic the residual is exactly zero.
\<close>

theorem solve_nonlinear_solves:
  assumes sq: "is_square (system_size self) mtx"
    and inv: "invertible (system_size self) mtx"
    and len: "length rhs = system_size self"
  shows "\<exists>self' \<Gamma>. SolveMatrix_solve_nonlinear self mtx rhs = Inr (self', \<Gamma>)
           \<and> mat_vec mtx \<Gamma> = rhs
           \<and> apply_nonlinear mtx \<Gamma> rhs = vsub (mat_vec mtx \<Gamma>) rhs
           \<and> apply_nonlinear mtx \<Gamma> rhs = replicate (system_size self) 0"
proof -
  let ?\<Gamma> = "lu_solve (lu_factor mtx) rhs 0"
  from sq inv have "nonsingular (system_size self) mtx" by (rule invertible_nonsingular)
  with sq have sol: "mat_vec mtx ?\<Gamma> = rhs" using len by (rule lu_solve_forward)
  have "vsub rhs rhs = replicate (length rhs) 0"
    by (induction rhs) simp_all
  with sol len have "apply_nonlinear mtx ?\<Gamma> rhs = replicate (system_size self) 0"
    by (simp add: apply_nonlinear_def)
  moreover have "apply_nonlinear mtx ?\<Gamma> rhs = vsub (mat_vec mtx ?\<Gamma>) rhs"
    by (simp add: apply_nonlinear_def)
  moreover from sq len
  have "SolveMatrix_solve_nonlinear self mtx rhs = Inr (self\<lparr>lu := Some (lu_factor mtx)\<rparr>, ?\<Gamma>)"
    by (simp add: SolveMatrix_solve_nonlinear_def Let_def)
  ultimately show ?thesis using sol by blast
qed

theorem solve_nonlinear_solves_witness:
  "is_square (system_size example_solver) example_mtx
   \<and> invertible (system_size example_solver) example_mtx
   \<and> length [5, 6 :: real] = system_size example_solver
   \<and> (\<exists>self' \<Gamma>. SolveMatrix_solve_nonlinear example_solver example_mtx [5, 6] = Inr (self', \<Gamma>)
         \<and> mat_vec example_mtx \<Gamma> = [5, 6]
         \<and> apply_nonlinear example_mtx \<Gamma> [5, 6] = vsub (mat_vec example_mtx \<Gamma>) [5, 6]
         \<and> apply_nonlinear example_mtx \<Gamma> [5, 6] = replicate (system_size example_solver) 0)"
proof -
  have sq: "is_square (system_size example_solver) example_mtx"
    by (simp add: solver_eval_defs)
  have inv: "invertible (system_size example_solver) example_mtx"
    using example_invertible by (simp add: example_system_size)
  have len: "length [5, 6 :: real] = system_size example_solver"
    by (simp add: example_system_size)
  from solve_nonlinear_solves [OF sq inv len] sq inv len show ?thesis by simp
qed

text \<open>
  C2, as stated, fails: on a matrix with a zero row \<^verbatim>\<open>solve_nonlinear\<close> raises nothing;
  it stores the factors and returns what the triangular solves compute.
\<close>

theorem singular_solve_counterexample:
  "SolveMatrix_solve_nonlinear example_solver singular_mtx [1, 1]
     = Inr (example_solver\<lparr>lu := Some (lu_factor singular_mtx)\<rparr>,
            lu_solve (lu_factor singular_mtx) [1, 1] 0)"
  by (simp add: SolveMatrix_solve_nonlinear_def Let_def is_square_def singular_mtx_def
      example_system_size)

text \<open>
  C2 as amended: \<^verbatim>\<open>solve_nonlinear\<close> has no singularity check.  For every matrix
  and right-hand side of the declared shapes, singular or not, it returns a vector and
  stores the factors; when the matrix has a zero row and the right-hand side is nonzero in
  that position, the vector returned is not a solution of \<open>mtx \<cdot> \<Gamma> = rhs\<close>.
\<close>

theorem singular_solve_returns:
  assumes sq: "is_square (system_size self) mtx" and len: "length rhs = system_size self"
  shows "\<exists>self' \<Gamma>. SolveMatrix_solve_nonlinear self mtx rhs = Inr (self', \<Gamma>)
           \<and> lu self' = Some (lu_factor mtx)
           \<and> (\<forall>i < system_size self.
                 mtx ! i = replicate (system_size self) 0 \<and> rhs ! i \<noteq> 0
                 \<longrightarrow> mat_vec mtx \<Gamma> \<noteq> rhs)"
proof -
  let ?n = "system_size self"
  let ?\<Gamma> = "lu_solve (lu_factor mtx) rhs 0"
  from sq have lenM: "length mtx = ?n" by (simp add: is_square_def)
  have "mat_vec mtx ?\<Gamma> \<noteq> rhs"
    if i: "i < ?n" and row: "mtx ! i = replicate ?n 0" and nz: "rhs ! i \<noteq> 0" for i
  proof
    assume "mat_vec mtx ?\<Gamma> = rhs"
    then have "mat_vec mtx ?\<Gamma> ! i = rhs ! i" by simp
    moreover from i lenM row have "mat_vec mtx ?\<Gamma> ! i = 0"
      by (simp add: mat_vec_def)
    ultimately show False using nz by simp
  qed
  moreover from sq len
  have "SolveMatrix_solve_nonlinear self mtx rhs = Inr (self\<lparr>lu := Some (lu_factor mtx)\<rparr>, ?\<Gamma>)"
    by (simp add: SolveMatrix_solve_nonlinear_def Let_def)
  ultimately show ?thesis by simp
qed

theorem singular_solve_returns_witness:
  "is_square (system_size example_solver) singular_mtx
   \<and> length [1, 1 :: real] = system_size example_solver
   \<and> (1::nat) < system_size example_solver
   \<and> singular_mtx ! 1 = replicate (system_size example_solver) 0 \<and> [1, 1 :: real] ! 1 \<noteq> 0
   \<and> (\<exists>self' \<Gamma>. SolveMatrix_solve_nonlinear example_solver singular_mtx [1, 1] = Inr (self', \<Gamma>)
         \<and> lu self' = Some (lu_factor singular_mtx)
         \<and> mat_vec singular_mtx \<Gamma> \<noteq> [1, 1])"
proof -
  have sq: "is_square (system_size example_solver) singular_mtx"
    by (simp add: example_system_size is_square_def singular_mtx_def)
  have len: "length [1, 1 :: real] = system_size example_solver"
    by (simp add: example_system_size)
  have row: "(1::nat) < system_size example_solver
      \<and> singular_mtx ! 1 = replicate (system_size example_solver) 0 \<and> [1, 1 :: real] ! 1 \<noteq> 0"
    by (simp add: example_system_size singular_mtx_def numeral_2_eq_2)
  from singular_solve_returns [OF sq len] obtain self' \<Gamma>
    where "SolveMatrix_solve_nonlinear example_solver singular_mtx [1, 1] = Inr (self', \<Gamma>)"
      and "lu self' = Some (lu_factor singular_mtx)"
      and "\<forall>i < system_size example_solver.
             singular_mtx ! i = replicate (system_size example_solver) 0 \<and> [1, 1 :: real] ! i \<noteq> 0
             \<longrightarrow> mat_vec singular_mtx \<Gamma> \<noteq> [1, 1]"
    by blast
  with row sq len show ?thesis by blast
qed

text \<open>The factors stored by either call are those of the matrix of that call.\<close>

lemma populated_cache:
  assumes "(\<exists>rhs \<Gamma>. SolveMatrix_solve_nonlinear self M rhs = Inr (self', \<Gamma>))
         \<or> (\<exists>\<Gamma> J1 J2. linearize self M \<Gamma> = Inr (self', J1, J2))"
  shows "lu self' = Some (lu_factor M) \<and> system_size self' = system_size self
         \<and> is_square (system_size self) M"
  using assms
  by (auto simp: SolveMatrix_solve_nonlinear_def linearize_def Let_def split: if_splits)

text \<open>
  C4: after \<^verbatim>\<open>solve_nonlinear\<close> or \<^verbatim>\<open>linearize\<close> has stored the factors of an
  invertible matrix \<open>M\<close>, \<^verbatim>\<open>solve_linear\<close> in mode \<^verbatim>\<open>'fwd'\<close> with seed \<open>s\<close> returns
  the solution \<open>x\<close> of \<open>M \<cdot> x = s\<close>, and in any other mode with seed \<open>t\<close> the solution
  \<open>y\<close> of \<open>M\<^sup>T \<cdot> y = t\<close>; both are computed by \<^verbatim>\<open>lu_solve\<close> from the stored factors
  \<open>f\<close>, with no new factorization; and \<open>\<langle>x, t\<rangle> = \<langle>s, y\<rangle>\<close>.
\<close>

theorem solve_linear_modes:
  assumes inv: "invertible (system_size self) M"
    and populated: "(\<exists>rhs \<Gamma>. SolveMatrix_solve_nonlinear self M rhs = Inr (self', \<Gamma>))
         \<or> (\<exists>\<Gamma> J1 J2. linearize self M \<Gamma> = Inr (self', J1, J2))"
    and s: "length s = system_size self" and t: "length t = system_size self"
    and mode: "mode \<noteq> ''fwd''"
  shows "\<exists>f x y. lu self' = Some f
           \<and> solve_linear self' d_outputs s ''fwd'' = Inr (x, s)
           \<and> solve_linear self' t d_residuals mode = Inr (t, y)
           \<and> x = lu_solve f s 0 \<and> y = lu_solve f t 1
           \<and> mat_vec M x = s
           \<and> mat_vec (mtranspose M) y = t
           \<and> dot x t = dot s y"
proof -
  let ?n = "system_size self"
  let ?f = "lu_factor M"
  let ?x = "lu_solve ?f s 0"
  let ?y = "lu_solve ?f t 1"
  from populated have cache: "lu self' = Some ?f" and sq: "is_square ?n M"
    using populated_cache by blast+
  obtain LU piv where f: "?f = (LU, piv)" by (cases ?f)
  from lu_factor_shape [OF sq f] have LU: "is_square ?n LU" and piv: "length piv = ?n"
    by simp_all
  then have lenLU: "length (fst ?f) = ?n" by (simp add: f is_square_def)
  from sq inv have ns: "nonsingular ?n M" by (rule invertible_nonsingular)
  from sq ns s have x: "mat_vec M ?x = s" by (rule lu_solve_forward)
  from sq ns t have y: "mat_vec (mtranspose M) ?y = t" by (rule lu_solve_transposed) simp
  from LU piv s have lenx: "length ?x = ?n" unfolding f by (rule length_lu_solve)
  from LU piv t have leny: "length ?y = ?n" unfolding f by (rule length_lu_solve)
  have "dot ?x t = dot ?x (mat_vec (mtranspose M) ?y)" by (simp only: y)
  also have "\<dots> = dot (mat_vec M ?x) ?y"
    using sq lenx leny by (rule dot_mat_vec_adjoint [symmetric])
  also have "\<dots> = dot s ?y" by (simp only: x)
  finally have adj: "dot ?x t = dot s ?y" .
  from cache lenLU s have fwd: "solve_linear self' d_outputs s ''fwd'' = Inr (?x, s)"
    by (simp add: solve_linear_def)
  from cache lenLU t mode have rev: "solve_linear self' t d_residuals mode = Inr (t, ?y)"
    by (simp add: solve_linear_def)
  from cache fwd rev x y adj show ?thesis by blast
qed

theorem solve_linear_modes_witness:
  "invertible (system_size example_solver) example_mtx
   \<and> ((\<exists>rhs \<Gamma>. SolveMatrix_solve_nonlinear example_solver example_mtx rhs
                  = Inr (example_solver\<lparr>lu := Some (lu_factor example_mtx)\<rparr>, \<Gamma>))
      \<or> (\<exists>\<Gamma> J1 J2. linearize example_solver example_mtx \<Gamma>
                  = Inr (example_solver\<lparr>lu := Some (lu_factor example_mtx)\<rparr>, J1, J2)))
   \<and> length [5, 6 :: real] = system_size example_solver
   \<and> length [1, 2 :: real] = system_size example_solver
   \<and> ''rev'' \<noteq> ''fwd''
   \<and> (\<exists>f x y. lu (example_solver\<lparr>lu := Some (lu_factor example_mtx)\<rparr>) = Some f
         \<and> solve_linear (example_solver\<lparr>lu := Some (lu_factor example_mtx)\<rparr>) [] [5, 6] ''fwd''
             = Inr (x, [5, 6])
         \<and> solve_linear (example_solver\<lparr>lu := Some (lu_factor example_mtx)\<rparr>) [1, 2] [] ''rev''
             = Inr ([1, 2], y)
         \<and> x = lu_solve f [5, 6] 0 \<and> y = lu_solve f [1, 2] 1
         \<and> mat_vec example_mtx x = [5, 6]
         \<and> mat_vec (mtranspose example_mtx) y = [1, 2]
         \<and> dot x [1, 2] = dot [5, 6] y)"
proof -
  let ?self' = "example_solver\<lparr>lu := Some (lu_factor example_mtx)\<rparr>"
  have inv: "invertible (system_size example_solver) example_mtx"
    using example_invertible by (simp add: example_system_size)
  have "SolveMatrix_solve_nonlinear example_solver example_mtx [5, 6]
      = Inr (?self', lu_solve (lu_factor example_mtx) [5, 6] 0)"
    by (simp add: SolveMatrix_solve_nonlinear_def Let_def example_system_size is_square_def
        example_mtx_def)
  then have populated:
    "(\<exists>rhs \<Gamma>. SolveMatrix_solve_nonlinear example_solver example_mtx rhs = Inr (?self', \<Gamma>))
     \<or> (\<exists>\<Gamma> J1 J2. linearize example_solver example_mtx \<Gamma> = Inr (?self', J1, J2))"
    by blast
  have s: "length [5, 6 :: real] = system_size example_solver"
    and t: "length [1, 2 :: real] = system_size example_solver"
    by (simp_all add: example_system_size)
  have mode: "''rev'' \<noteq> ''fwd''" by simp
  from solve_linear_modes [OF inv populated s t mode, of "[]" "[]"] inv populated s t mode
  show ?thesis by blast
qed

text \<open>The Jacobian blocks of C3 on the example.\<close>

theorem jacobian_blocks_witness:
  "linearize example_solver example_mtx [5, 7]
     = Inr (example_solver\<lparr>lu := Some (lu_factor example_mtx)\<rparr>,
            \<lparr>coo_rows = [0, 0, 1, 1], coo_cols = [0, 1, 0, 1], coo_vals = [1, 2, 3, 4]\<rparr>,
            \<lparr>coo_rows = [0, 0, 1, 1], coo_cols = [0, 1, 2, 3], coo_vals = [5, 7, 5, 7]\<rparr>)
   \<and> 2 = system_size example_solver \<and> (0::nat) < 2 \<and> (1::nat) < 2
   \<and> coo_entry \<lparr>coo_rows = [0, 0, 1, 1], coo_cols = [0, 1, 0, 1], coo_vals = [1, 2, 3, 4]\<rparr> 0 1
       = example_mtx ! 0 ! 1
   \<and> coo_entry (partials_rhs 2) 0 1 = (if (0::nat) = 1 then - 1 else 0)
   \<and> coo_entry \<lparr>coo_rows = [0, 0, 1, 1], coo_cols = [0, 1, 2, 3], coo_vals = [5, 7, 5, 7]\<rparr>
         0 (1 * 2 + 1)
       = (if (1::nat) = 0 then [5, 7] ! 1 else 0)"
proof -
  have lin: "linearize example_solver example_mtx [5, 7]
     = Inr (example_solver\<lparr>lu := Some (lu_factor example_mtx)\<rparr>,
            \<lparr>coo_rows = [0, 0, 1, 1], coo_cols = [0, 1, 0, 1], coo_vals = [1, 2, 3, 4]\<rparr>,
            \<lparr>coo_rows = [0, 0, 1, 1], coo_cols = [0, 1, 2, 3], coo_vals = [5, 7, 5, 7]\<rparr>)"
    by (simp add: linearize_def example_system_size is_square_def example_mtx_def
        rows_circulations_def cols_circulations_def rows_mtx_def cols_mtx_def outer_flat_def
        upt_rec numeral_2_eq_2)
  have n: "2 = system_size example_solver" by (simp add: example_system_size)
  from jacobian_blocks [OF lin n, of 0 1 1] lin n show ?thesis by simp
qed

end
